theory Spec2Isabelle
  imports Main
begin

section \<open>Types of the event broker (types.ts)\<close>

type_synonym name = string
type_synonym data = int

text \<open>A thrown JavaScript value; the broker itself only creates \<open>new Error(message)\<close>.\<close>

datatype error = Error string

text \<open>\<open>Event<T, K>\<close>: the object \<open>{ name, data }\<close> handed through the middleware chain.\<close>

record event =
  ev_name :: name
  ev_data :: data

text \<open>
  Function references. A listener is compared by reference in the listener sets, so every
  function carries an identity. \<open>Fn i\<close> is the user function number \<open>i\<close> (its body is looked
  up in the program), \<open>OnceWrapper i k f\<close> is the closure \<open>wrappedListener\<close> that the
  \<open>i\<close>-th closure allocation created inside \<open>once(k, f)\<close>.
\<close>

datatype fnref = Fn nat | OnceWrapper nat name fnref

text \<open>
  Middleware references: \<open>Mw i\<close> is the user middleware number \<open>i\<close>, \<open>LoggerMw i\<close> the
  closure returned by \<open>createLoggerMiddleware({ console: true })\<close>.
\<close>

datatype mwref = Mw nat | LoggerMw nat

text \<open>\<open>ERROR_TYPE\<close> and its string tags.\<close>

datatype error_type = LISTENER | EMIT | MIDDLEWARE

fun tag :: "error_type \<Rightarrow> string" where
  "tag LISTENER = ''listener''"
| "tag EMIT = ''emit''"
| "tag MIDDLEWARE = ''middleware''"

text \<open>
  \<open>Policy | ErrorHandler<T>\<close>: the symbolic policies \<open>"continue"\<close> and \<open>"stop"\<close>, or a
  custom handler function (by reference). A slot of \<open>ErrorPolicy\<close> is optional: \<open>None\<close> is
  an omitted (undefined) slot.
\<close>

datatype policy = CONTINUE | STOP | Handler nat

record error_policy =
  onListenerError :: "policy option"
  onEmitError :: "policy option"
  onMiddlewareError :: "policy option"

definition DEFAULT_MAX_LISTENERS :: int where
  "DEFAULT_MAX_LISTENERS = 10"

definition DEFAULT_ERROR_POLICY :: error_policy where
  "DEFAULT_ERROR_POLICY =
     \<lparr>onListenerError = Some CONTINUE, onEmitError = Some CONTINUE,
      onMiddlewareError = Some CONTINUE\<rparr>"

section \<open>User code\<close>

text \<open>
  The bodies of the functions that user code hands to the broker (listeners, custom error
  handlers, middlewares) are written in a small statement language: what such a function
  can do to the broker and to the outside world. \<open>Log\<close> is any observable effect of user
  code, \<open>CallNext\<close> is the call \<open>next(event)\<close> inside a middleware layer.
\<close>

datatype stmt =
    Log string
  | Throw error
  | TryCatch "stmt list" "stmt list"
  | CallOn name fnref
  | CallOnce name fnref
  | CallOff name fnref
  | CallClear
  | CallUse mwref
  | CallRemove mwref
  | CallEmit name data
  | CallNext event

text \<open>
  The program: the code behind every function reference. A listener body may depend on the
  payload it is called with, a handler body on the error and the event, a middleware layer
  on the event it receives. \<open>mw_construct i\<close> is what the call \<open>middleware(next)\<close> runs
  before it returns the layer \<open>(event) => ...\<close>, whose body is \<open>mw_layer i event\<close>; in
  both, \<open>next\<close> is the chain that the call was given.
\<close>

record program =
  listener_code :: "nat \<Rightarrow> data \<Rightarrow> stmt list"
  handler_code :: "nat \<Rightarrow> error \<Rightarrow> event \<Rightarrow> stmt list"
  mw_construct :: "nat \<Rightarrow> stmt list"
  mw_layer :: "nat \<Rightarrow> event \<Rightarrow> stmt list"

section \<open>JavaScript \<open>Set\<close> objects\<close>

text \<open>
  The entries of a \<open>Set\<close> as ECMA-262 keeps them: a list in insertion order in which a
  deleted entry is replaced by \<open>empty\<close> (\<open>None\<close>). \<open>add\<close> appends unless the value is
  present, \<open>size\<close> counts the entries that are not empty, and an iterator walks the list
  by index, reading its current length each time.
\<close>

type_synonym 'a set_data = "'a option list"

definition set_add :: "'a set_data \<Rightarrow> 'a \<Rightarrow> 'a set_data" where
  "set_add xs v = (if Some v \<in> set xs then xs else xs @ [Some v])"

definition set_delete :: "'a set_data \<Rightarrow> 'a \<Rightarrow> 'a set_data" where
  "set_delete xs v = map (\<lambda>e. if e = Some v then None else e) xs"

definition set_size :: "'a set_data \<Rightarrow> nat" where
  "set_size xs = length (filter (\<lambda>e. e \<noteq> None) xs)"

text \<open>The members in iteration order.\<close>

definition members :: "'a set_data \<Rightarrow> 'a list" where
  "members xs = map the (filter (\<lambda>e. e \<noteq> None) xs)"

section \<open>The broker (eventBroker.ts)\<close>

text \<open>What the outside world sees: console output, user effects, and each listener call.\<close>

datatype obs =
    Logged string
  | Called fnref data
  | ConsoleError error_type name error
  | ConsoleWarn name int
  | LoggerGroup name data

text \<open>
  The broker's fields, with the heap of the \<open>Set\<close> objects that \<open>listeners\<close> refers to
  (\<open>listeners\<close> maps an event name to the address of its \<open>Set\<close>), the allocation counters
  and the observable trace.
\<close>

record broker =
  listeners :: "name \<rightharpoonup> nat"
  heap :: "nat \<Rightarrow> fnref set_data"
  next_set :: nat
  middlewares :: "mwref list"
  errorPolicy :: error_policy
  maxListeners :: int
  next_fn :: nat
  trace :: "obs list"

definition emitted :: "obs \<Rightarrow> broker \<Rightarrow> broker" where
  "emitted x s = s\<lparr>trace := trace s @ [x]\<rparr>"

text \<open>\<open>EventBrokerOptions\<close>.\<close>

record options =
  opt_logger :: bool
  opt_maxListeners :: "int option"
  opt_errorPolicy :: "error_policy option"
  opt_middlewares :: "mwref list option"

text \<open>\<open>new Set(iterable)\<close> on the middleware array: add one by one.\<close>

definition mw_add :: "mwref list \<Rightarrow> mwref \<Rightarrow> mwref list" where
  "mw_add ms m = (if m \<in> set ms then ms else ms @ [m])"

text \<open>
  The constructor. \<open>lg\<close> is the identity of the closure that \<open>createLoggerMiddleware\<close>
  returns. The second component is the caller's \<open>options.middlewares\<close> array after the
  call (\<open>None\<close> when the caller passed none: the fresh \<open>[]\<close> is not the caller's).
\<close>

definition constructor :: "options \<Rightarrow> nat \<Rightarrow> broker \<times> mwref list option" where
  "constructor opts lg =
     (let arr = (case opt_middlewares opts of None \<Rightarrow> [] | Some ms \<Rightarrow> ms);
          arr' = (if opt_logger opts then arr @ [LoggerMw lg] else arr)
      in (\<lparr>listeners = Map.empty,
           heap = (\<lambda>_. []),
           next_set = 0,
           middlewares = foldl mw_add [] arr',
           errorPolicy = (case opt_errorPolicy opts of None \<Rightarrow> DEFAULT_ERROR_POLICY
                          | Some p \<Rightarrow> p),
           maxListeners = (case opt_maxListeners opts of None \<Rightarrow> DEFAULT_MAX_LISTENERS
                           | Some m \<Rightarrow> if m = 0 then DEFAULT_MAX_LISTENERS else m),
           next_fn = 0,
           trace = []\<rparr>,
          map_option (\<lambda>_. arr') (opt_middlewares opts)))"

definition createEventBroker :: "options \<Rightarrow> nat \<Rightarrow> broker \<times> mwref list option" where
  "createEventBroker opts lg = constructor opts lg"

text \<open>\<open>use\<close> and the remover closure it returns.\<close>

definition use :: "mwref \<Rightarrow> broker \<Rightarrow> broker" where
  "use m s = s\<lparr>middlewares := mw_add (middlewares s) m\<rparr>"

definition remove_mw :: "mwref \<Rightarrow> broker \<Rightarrow> broker" where
  "remove_mw m s = s\<lparr>middlewares := removeAll m (middlewares s)\<rparr>"

text \<open>\<open>on\<close>; the \<open>Unsubscribe\<close> closure it returns is \<open>off eventName listener\<close>.\<close>

definition on :: "name \<Rightarrow> fnref \<Rightarrow> broker \<Rightarrow> broker" where
  "on eventName listener s =
     (let s1 = (if listeners s eventName = None
                then s\<lparr>listeners := (listeners s)(eventName \<mapsto> next_set s),
                       heap := (heap s)(next_set s := []),
                       next_set := Suc (next_set s)\<rparr>
                else s)
      in case listeners s1 eventName of
           None \<Rightarrow> s1
         | Some a \<Rightarrow>
             (let s2 = (if int (set_size (heap s1 a)) \<ge> maxListeners s1
                        then emitted (ConsoleWarn eventName (maxListeners s1)) s1 else s1)
              in s2\<lparr>heap := (heap s2)(a := set_add (heap s2 a) listener)\<rparr>))"

definition off :: "name \<Rightarrow> fnref \<Rightarrow> broker \<Rightarrow> broker" where
  "off eventName listener s =
     (case listeners s eventName of
        None \<Rightarrow> s
      | Some a \<Rightarrow>
          (let s1 = s\<lparr>heap := (heap s)(a := set_delete (heap s a) listener)\<rparr>
           in if set_size (heap s1 a) = 0
              then s1\<lparr>listeners := (listeners s1)(eventName := None)\<rparr>
              else s1))"

text \<open>\<open>once\<close>: allocates the closure \<open>wrappedListener\<close> and registers it.\<close>

definition once :: "name \<Rightarrow> fnref \<Rightarrow> broker \<Rightarrow> broker" where
  "once eventName listener s =
     on eventName (OnceWrapper (next_fn s) eventName listener)
        (s\<lparr>next_fn := Suc (next_fn s)\<rparr>)"

definition clear :: "broker \<Rightarrow> broker" where
  "clear s = s\<lparr>listeners := Map.empty\<rparr>"

text \<open>The slot that \<open>policy_map[type]\<close> reads.\<close>

fun policy_map :: "error_policy \<Rightarrow> error_type \<Rightarrow> policy option" where
  "policy_map p LISTENER = onListenerError p"
| "policy_map p EMIT = onEmitError p"
| "policy_map p MIDDLEWARE = onMiddlewareError p"

datatype outcome = Normal | Thrown error

text \<open>
  Running the broker. User code can register a listener that re-registers itself behind
  the iterator, or emit from inside a listener, so an emission need not end: every
  function takes fuel, and \<open>None\<close> is running out of it. A result is the outcome (a
  normal return or a thrown error) with the state reached.

  \<open>exec\<close> runs a function body; its \<open>next\<close> argument is the continuation of a middleware
  layer (the layers inside it and the event name the terminal stage closes over), \<open>None\<close>
  in a listener or handler, where the identifier \<open>next\<close> is not bound.

  \<open>call_listener\<close> calls a listener and records the call; for the wrapper of \<open>once\<close> it
  calls the wrapped listener and then \<open>off\<close>, which a throw skips.
  \<open>getErrorHandlingStrategy\<close> applies the strategy of a policy (its last branch,
  \<open>() => true\<close>, is for a value that is neither of \<open>"continue"\<close>, \<open>"stop"\<close> or a function;
  the type \<open>Policy | ErrorHandler\<close> has none). \<open>handleError\<close> returns the boolean of the
  strategy (\<open>Inr\<close>) or throws (\<open>Inl\<close>).
  \<open>terminal a i\<close> is the loop \<open>for (const listener of set)\<close> of the terminal stage at
  position \<open>i\<close> of the \<open>Set\<close> at address \<open>a\<close>, read from the heap at every step.
  \<open>reduceRight\<close> folds the middleware array, given last element first, around the chain
  \<open>next\<close> built so far, which each call \<open>middleware(next)\<close> receives; the composed
  function is the list of the layers that were
  constructed, outermost first, and \<open>composed\<close> calls it. \<open>emit_try\<close> is the body of the
  \<open>try\<close> block of \<open>emit\<close>, and \<open>emit\<close> adds its \<open>catch\<close>.
\<close>

function exec :: "program \<Rightarrow> nat \<Rightarrow> (mwref list \<times> name) option \<Rightarrow> stmt list \<Rightarrow> broker
              \<Rightarrow> (outcome \<times> broker) option"
and call_listener :: "program \<Rightarrow> nat \<Rightarrow> fnref \<Rightarrow> data \<Rightarrow> broker \<Rightarrow> (outcome \<times> broker) option"
and getErrorHandlingStrategy :: "program \<Rightarrow> nat \<Rightarrow> policy \<Rightarrow> error \<Rightarrow> event \<Rightarrow> error_type
              \<Rightarrow> broker \<Rightarrow> ((error + bool) \<times> broker) option"
and handleError :: "program \<Rightarrow> nat \<Rightarrow> error \<Rightarrow> event \<Rightarrow> error_type \<Rightarrow> broker
              \<Rightarrow> ((error + bool) \<times> broker) option"
and terminal :: "program \<Rightarrow> nat \<Rightarrow> nat \<Rightarrow> nat \<Rightarrow> event \<Rightarrow> broker \<Rightarrow> (outcome \<times> broker) option"
and composed :: "program \<Rightarrow> nat \<Rightarrow> mwref list \<Rightarrow> name \<Rightarrow> event \<Rightarrow> broker
              \<Rightarrow> (outcome \<times> broker) option"
and reduceRight :: "program \<Rightarrow> nat \<Rightarrow> mwref list \<Rightarrow> mwref list \<Rightarrow> name \<Rightarrow> data \<Rightarrow> broker
              \<Rightarrow> ((error + mwref list) \<times> broker) option"
and emit_try :: "program \<Rightarrow> nat \<Rightarrow> name \<Rightarrow> data \<Rightarrow> broker \<Rightarrow> (outcome \<times> broker) option"
and emit :: "program \<Rightarrow> nat \<Rightarrow> name \<Rightarrow> data \<Rightarrow> broker \<Rightarrow> (outcome \<times> broker) option"
where
  "exec P 0 nxt ss s = None"
| "exec P (Suc n) nxt ss s =
     (case ss of
        [] \<Rightarrow> Some (Normal, s)
      | c # cs \<Rightarrow>
          (case c of
             Log m \<Rightarrow> exec P n nxt cs (emitted (Logged m) s)
           | Throw e \<Rightarrow> Some (Thrown e, s)
           | TryCatch body handler \<Rightarrow>
               (case exec P n nxt body s of
                  None \<Rightarrow> None
                | Some (Normal, s1) \<Rightarrow> exec P n nxt cs s1
                | Some (Thrown e, s1) \<Rightarrow>
                    (case exec P n nxt handler s1 of
                       None \<Rightarrow> None
                     | Some (Normal, s2) \<Rightarrow> exec P n nxt cs s2
                     | Some (Thrown e', s2) \<Rightarrow> Some (Thrown e', s2)))
           | CallOn k f \<Rightarrow> exec P n nxt cs (on k f s)
           | CallOnce k f \<Rightarrow> exec P n nxt cs (once k f s)
           | CallOff k f \<Rightarrow> exec P n nxt cs (off k f s)
           | CallClear \<Rightarrow> exec P n nxt cs (clear s)
           | CallUse m \<Rightarrow> exec P n nxt cs (use m s)
           | CallRemove m \<Rightarrow> exec P n nxt cs (remove_mw m s)
           | CallEmit k d \<Rightarrow>
               (case emit P n k d s of
                  None \<Rightarrow> None
                | Some (Normal, s1) \<Rightarrow> exec P n nxt cs s1
                | Some (Thrown e, s1) \<Rightarrow> Some (Thrown e, s1))
           | CallNext ev \<Rightarrow>
               (case nxt of
                  None \<Rightarrow> Some (Thrown (Error ''next is not defined''), s)
                | Some (layers, k) \<Rightarrow>
                    (case composed P n layers k ev s of
                       None \<Rightarrow> None
                     | Some (Normal, s1) \<Rightarrow> exec P n nxt cs s1
                     | Some (Thrown e, s1) \<Rightarrow> Some (Thrown e, s1)))))"

| "call_listener P 0 f d s = None"
| "call_listener P (Suc n) (Fn i) d s =
     exec P n None (listener_code P i d) (emitted (Called (Fn i) d) s)"
| "call_listener P (Suc n) (OnceWrapper i k f) d s =
     (case call_listener P n f d (emitted (Called (OnceWrapper i k f) d) s) of
        None \<Rightarrow> None
      | Some (Normal, s1) \<Rightarrow> Some (Normal, off k (OnceWrapper i k f) s1)
      | Some (Thrown e, s1) \<Rightarrow> Some (Thrown e, s1))"

| "getErrorHandlingStrategy P 0 pol e ev ty s = None"
| "getErrorHandlingStrategy P (Suc n) (Handler h) e ev ty s =
     (case exec P n None (handler_code P h e ev) s of
        None \<Rightarrow> None
      | Some (Normal, s1) \<Rightarrow> Some (Inr True, s1)
      | Some (Thrown e', s1) \<Rightarrow> Some (Inl e', s1))"
| "getErrorHandlingStrategy P (Suc n) CONTINUE e ev ty s =
     Some (Inr True, emitted (ConsoleError ty (ev_name ev) e) s)"
| "getErrorHandlingStrategy P (Suc n) STOP e ev ty s = Some (Inl e, s)"

| "handleError P 0 e ev ty s = None"
| "handleError P (Suc n) e ev ty s =
     (case policy_map (errorPolicy s) ty of
        None \<Rightarrow> Some (Inl (Error (''Invalid error type: '' @ tag ty)), s)
      | Some pol \<Rightarrow> getErrorHandlingStrategy P n pol e ev ty s)"

| "terminal P 0 a i ev s = None"
| "terminal P (Suc n) a i ev s =
     (if i < length (heap s a) then
        (case heap s a ! i of
           None \<Rightarrow> terminal P n a (Suc i) ev s
         | Some listener \<Rightarrow>
             (case call_listener P n listener (ev_data ev) s of
                None \<Rightarrow> None
              | Some (Normal, s1) \<Rightarrow> terminal P n a (Suc i) ev s1
              | Some (Thrown e, s1) \<Rightarrow>
                  (case handleError P n e \<lparr>ev_name = ev_name ev, ev_data = ev_data ev\<rparr>
                          LISTENER s1 of
                     None \<Rightarrow> None
                   | Some (Inl e', s2) \<Rightarrow> Some (Thrown e', s2)
                   | Some (Inr _, s2) \<Rightarrow> terminal P n a (Suc i) ev s2)))
      else Some (Normal, s))"

| "composed P 0 layers k ev s = None"
| "composed P (Suc n) [] k ev s =
     (case listeners s k of
        None \<Rightarrow> Some (Normal, s)
      | Some a \<Rightarrow> terminal P n a 0 ev s)"
| "composed P (Suc n) (Mw i # layers) k ev s =
     exec P n (Some (layers, k)) (mw_layer P i ev) s"
| "composed P (Suc n) (LoggerMw i # layers) k ev s =
     composed P n layers k ev (emitted (LoggerGroup (ev_name ev) (ev_data ev)) s)"

| "reduceRight P 0 ms nxt k d s = None"
| "reduceRight P (Suc n) [] nxt k d s = Some (Inr nxt, s)"
| "reduceRight P (Suc n) (Mw i # ms) nxt k d s =
     (case exec P n (Some (nxt, k)) (mw_construct P i) s of
        None \<Rightarrow> None
      | Some (Normal, s1) \<Rightarrow> reduceRight P n ms (Mw i # nxt) k d s1
      | Some (Thrown e, s1) \<Rightarrow>
          (case handleError P n e \<lparr>ev_name = k, ev_data = d\<rparr> MIDDLEWARE s1 of
             None \<Rightarrow> None
           | Some (Inl e', s2) \<Rightarrow> Some (Inl e', s2)
           | Some (Inr handled, s2) \<Rightarrow>
               if \<not> handled then Some (Inl e, s2)
               else reduceRight P n ms nxt k d s2))"
| "reduceRight P (Suc n) (LoggerMw i # ms) nxt k d s =
     reduceRight P n ms (LoggerMw i # nxt) k d s"

| "emit_try P 0 k d s = None"
| "emit_try P (Suc n) k d s =
     (case reduceRight P n (rev (middlewares s)) [] k d s of
        None \<Rightarrow> None
      | Some (Inl e, s1) \<Rightarrow> Some (Thrown e, s1)
      | Some (Inr layers, s1) \<Rightarrow> composed P n layers k \<lparr>ev_name = k, ev_data = d\<rparr> s1)"

| "emit P 0 k d s = None"
| "emit P (Suc n) k d s =
     (case emit_try P n k d s of
        None \<Rightarrow> None
      | Some (Normal, s1) \<Rightarrow> Some (Normal, s1)
      | Some (Thrown e, s1) \<Rightarrow>
          (case handleError P n e \<lparr>ev_name = k, ev_data = d\<rparr> EMIT s1 of
             None \<Rightarrow> None
           | Some (Inl e', s2) \<Rightarrow> Some (Thrown e', s2)
           | Some (Inr _, s2) \<Rightarrow> Some (Normal, s2)))"

  by pat_completeness auto

text \<open>Every call passes on less fuel than it was given.\<close>

termination
  by (relation "measure
       (case_sum
          (case_sum (case_sum (\<lambda>p. fst (snd p)) (\<lambda>p. fst (snd p)))
                    (case_sum (\<lambda>p. fst (snd p)) (\<lambda>p. fst (snd p))))
          (case_sum (case_sum (\<lambda>p. fst (snd p)) (\<lambda>p. fst (snd p)))
                    (case_sum (\<lambda>p. fst (snd p))
                       (case_sum (\<lambda>p. fst (snd p)) (\<lambda>p. fst (snd p))))))")
     simp_all

section \<open>Predicates and sample inputs used by the theorems\<close>

text \<open>
  \<open>preserved I\<close>: every operation that user code can perform on the broker keeps \<open>I\<close>.
  \<open>keeps I P n\<close>: then every function of the interpreter keeps \<open>I\<close> with fuel \<open>n\<close>.
\<close>

definition preserved :: "(broker \<Rightarrow> bool) \<Rightarrow> bool" where
  "preserved I \<longleftrightarrow>
     (\<forall>s x. I s \<longrightarrow> I (emitted x s)) \<and>
     (\<forall>s k f. I s \<longrightarrow> I (on k f s)) \<and>
     (\<forall>s k f. I s \<longrightarrow> I (once k f s)) \<and>
     (\<forall>s k f. I s \<longrightarrow> I (off k f s)) \<and>
     (\<forall>s. I s \<longrightarrow> I (clear s)) \<and>
     (\<forall>s m. I s \<longrightarrow> I (use m s)) \<and>
     (\<forall>s m. I s \<longrightarrow> I (remove_mw m s))"

definition keeps :: "(broker \<Rightarrow> bool) \<Rightarrow> program \<Rightarrow> nat \<Rightarrow> bool" where
  "keeps I P n \<longleftrightarrow>
     (\<forall>nxt ss s r s'. exec P n nxt ss s = Some (r, s') \<longrightarrow> I s \<longrightarrow> I s') \<and>
     (\<forall>f d s r s'. call_listener P n f d s = Some (r, s') \<longrightarrow> I s \<longrightarrow> I s') \<and>
     (\<forall>pol e ev ty s r s'.
        getErrorHandlingStrategy P n pol e ev ty s = Some (r, s') \<longrightarrow> I s \<longrightarrow> I s') \<and>
     (\<forall>e ev ty s r s'. handleError P n e ev ty s = Some (r, s') \<longrightarrow> I s \<longrightarrow> I s') \<and>
     (\<forall>a i ev s r s'. terminal P n a i ev s = Some (r, s') \<longrightarrow> I s \<longrightarrow> I s') \<and>
     (\<forall>ls k ev s r s'. composed P n ls k ev s = Some (r, s') \<longrightarrow> I s \<longrightarrow> I s') \<and>
     (\<forall>ms nxt k d s r s'.
        reduceRight P n ms nxt k d s = Some (r, s') \<longrightarrow> I s \<longrightarrow> I s') \<and>
     (\<forall>k d s r s'. emit_try P n k d s = Some (r, s') \<longrightarrow> I s \<longrightarrow> I s') \<and>
     (\<forall>k d s r s'. emit P n k d s = Some (r, s') \<longrightarrow> I s \<longrightarrow> I s')"

text \<open>A broker built with the given error policy and nothing else.\<close>

definition broker_with :: "error_policy \<Rightarrow> broker" where
  "broker_with ep =
     fst (createEventBroker \<lparr>opt_logger = False, opt_maxListeners = None,
                             opt_errorPolicy = Some ep, opt_middlewares = None\<rparr> 0)"



definition sample_program :: program where
  "sample_program =
     \<lparr>listener_code = (\<lambda>i d. if i = 0 then [Throw (Error ''boom'')]
                             else if i = 3 then [CallOn ''x'' (Fn 1)]
                             else if i = 4 then [CallOff ''x'' (Fn 1)]
                             else [Log ''ok'']),
      handler_code = (\<lambda>h e ev. [Log ''handled'']),
      mw_construct = (\<lambda>i. if i = 1 then [Throw (Error ''bad middleware'')] else []),
      mw_layer = (\<lambda>i ev. if i = 2 then [Throw (Error ''layer failed'')]
                         else if i = 3 then [Log ''B before'', CallNext ev, Log ''B after'']
                         else [Log ''A before'', CallNext ev, Log ''A after''])\<rparr>"







definition escalate_policy :: error_policy where
  "escalate_policy =
     \<lparr>onListenerError = Some STOP, onEmitError = Some STOP, onMiddlewareError = Some STOP\<rparr>"

definition escalate_broker :: broker where
  "escalate_broker = on ''x'' (Fn 1) (on ''x'' (Fn 0) (broker_with escalate_policy))"

text \<open>
  \<open>returns f r\<close>: given enough fuel, the run \<open>f\<close> ends with the result \<open>r\<close>.
  \<open>logged t s\<close>: the state \<open>s\<close> after the observations \<open>t\<close>.

  A body is \<open>simple\<close> when it only logs and then returns or throws: it does not call
  back into the broker. \<open>body_obs\<close> is what it logs and \<open>body_err\<close> what it throws.
  \<open>handled\<close> is what \<open>handleError\<close> does with an error (its result and its output)
  when a custom handler is simple, \<open>walk\<close> what the listener loop does over simple
  listeners, \<open>walkable\<close> says that the listeners the loop reaches are simple, and
  \<open>quiet\<close> listeners are simple and return. \<open>calls\<close> are the listener calls of a trace.
\<close>

definition returns :: "(nat \<Rightarrow> 'a option) \<Rightarrow> 'a \<Rightarrow> bool" where
  "returns f r \<longleftrightarrow> (\<exists>N. \<forall>n\<ge>N. f n = Some r)"

definition logged :: "obs list \<Rightarrow> broker \<Rightarrow> broker" where
  "logged t s = s\<lparr>trace := trace s @ t\<rparr>"

fun body_obs :: "stmt list \<Rightarrow> obs list" where
  "body_obs (Log m # ss) = Logged m # body_obs ss"
| "body_obs _ = []"

fun body_err :: "stmt list \<Rightarrow> error option" where
  "body_err (Log m # ss) = body_err ss"
| "body_err (Throw e # ss) = Some e"
| "body_err _ = None"

fun simple :: "stmt list \<Rightarrow> bool" where
  "simple [] = True"
| "simple (Log m # ss) = simple ss"
| "simple (Throw e # ss) = True"
| "simple _ = False"

definition outcome_of :: "error option \<Rightarrow> outcome" where
  "outcome_of x = (case x of None \<Rightarrow> Normal | Some e \<Rightarrow> Thrown e)"

definition handler_simple :: "program \<Rightarrow> policy option \<Rightarrow> error \<Rightarrow> event \<Rightarrow> bool" where
  "handler_simple P pol e ev =
     (case pol of Some (Handler h) \<Rightarrow> simple (handler_code P h e ev) | _ \<Rightarrow> True)"

definition handled :: "program \<Rightarrow> policy option \<Rightarrow> error_type \<Rightarrow> error \<Rightarrow> event
                        \<Rightarrow> (error + bool) \<times> obs list" where
  "handled P pol ty e ev =
     (case pol of
        None \<Rightarrow> (Inl (Error (''Invalid error type: '' @ tag ty)), [])
      | Some CONTINUE \<Rightarrow> (Inr True, [ConsoleError ty (ev_name ev) e])
      | Some STOP \<Rightarrow> (Inl e, [])
      | Some (Handler h) \<Rightarrow>
          (case body_err (handler_code P h e ev) of
             None \<Rightarrow> (Inr True, body_obs (handler_code P h e ev))
           | Some e' \<Rightarrow> (Inl e', body_obs (handler_code P h e ev))))"

fun walk :: "program \<Rightarrow> policy option \<Rightarrow> event \<Rightarrow> fnref list \<Rightarrow> outcome \<times> obs list" where
  "walk P pol ev [] = (Normal, [])"
| "walk P pol ev (Fn j # fs) =
     (let body = listener_code P j (ev_data ev);
          t = Called (Fn j) (ev_data ev) # body_obs body
      in case body_err body of
           None \<Rightarrow> (case walk P pol ev fs of (r, t') \<Rightarrow> (r, t @ t'))
         | Some e \<Rightarrow>
             (case handled P pol LISTENER e ev of
                (Inl e', th) \<Rightarrow> (Thrown e', t @ th)
              | (Inr b, th) \<Rightarrow> (case walk P pol ev fs of (r, t') \<Rightarrow> (r, t @ th @ t'))))"
| "walk P pol ev (OnceWrapper i k f # fs) = (Normal, [])"

fun walkable :: "program \<Rightarrow> policy option \<Rightarrow> event \<Rightarrow> fnref list \<Rightarrow> bool" where
  "walkable P pol ev [] = True"
| "walkable P pol ev (Fn j # fs) =
     (simple (listener_code P j (ev_data ev)) \<and>
      (case body_err (listener_code P j (ev_data ev)) of
         None \<Rightarrow> walkable P pol ev fs
       | Some e \<Rightarrow>
           handler_simple P pol e ev \<and>
           (case fst (handled P pol LISTENER e ev) of
              Inl e' \<Rightarrow> True
            | Inr b \<Rightarrow> walkable P pol ev fs)))"
| "walkable P pol ev (OnceWrapper i k f # fs) = False"

fun calls :: "obs list \<Rightarrow> (fnref \<times> data) list" where
  "calls [] = []"
| "calls (Called f d # t) = (f, d) # calls t"
| "calls (x # t) = calls t"

fun quiet :: "program \<Rightarrow> data \<Rightarrow> fnref \<Rightarrow> bool" where
  "quiet P d (Fn j) = (simple (listener_code P j d) \<and> body_err (listener_code P j d) = None)"
| "quiet P d (OnceWrapper i k f) = False"

text \<open>
  The registry: every key maps to a set that is not empty (\<open>nonempty_registry\<close>); the
  invariant that carries it adds that the sets are allocated and that no two keys share
  one. \<open>reachable\<close> are the states of a broker after any sequence of public operations.
\<close>

definition nonempty_registry :: "broker \<Rightarrow> bool" where
  "nonempty_registry s \<longleftrightarrow> (\<forall>k a. listeners s k = Some a \<longrightarrow> set_size (heap s a) \<noteq> 0)"

definition registry_inv :: "broker \<Rightarrow> bool" where
  "registry_inv s \<longleftrightarrow>
     (\<forall>k a. listeners s k = Some a \<longrightarrow> a < next_set s \<and> set_size (heap s a) \<noteq> 0) \<and>
     (\<forall>k k' a. listeners s k = Some a \<longrightarrow> listeners s k' = Some a \<longrightarrow> k = k')"

inductive reachable :: "program \<Rightarrow> broker \<Rightarrow> bool" for P :: program where
  created: "reachable P (fst (createEventBroker opts lg))"
| after_on: "reachable P s \<Longrightarrow> reachable P (on k f s)"
| after_once: "reachable P s \<Longrightarrow> reachable P (once k f s)"
| after_off: "reachable P s \<Longrightarrow> reachable P (off k f s)"
| after_clear: "reachable P s \<Longrightarrow> reachable P (clear s)"
| after_use: "reachable P s \<Longrightarrow> reachable P (use m s)"
| after_remove: "reachable P s \<Longrightarrow> reachable P (remove_mw m s)"
| after_emit: "reachable P s \<Longrightarrow> emit P n k d s = Some (r, s') \<Longrightarrow> reachable P s'"

text \<open>Sample brokers: listeners on \<open>"x"\<close> of a broker built with a given policy.\<close>

definition three_broker :: broker where
  "three_broker =
     on ''x'' (Fn 2) (on ''x'' (Fn 0) (on ''x'' (Fn 1) (broker_with escalate_policy)))"

definition continue_broker :: broker where
  "continue_broker = on ''x'' (Fn 1) (on ''x'' (Fn 0) (broker_with DEFAULT_ERROR_POLICY))"

definition quiet_broker :: broker where
  "quiet_broker = on ''x'' (Fn 2) (on ''x'' (Fn 1) (broker_with DEFAULT_ERROR_POLICY))"

definition adder_broker :: broker where
  "adder_broker = on ''x'' (Fn 3) (broker_with DEFAULT_ERROR_POLICY)"

definition remover_broker :: broker where
  "remover_broker = on ''x'' (Fn 1) (on ''x'' (Fn 4) (broker_with DEFAULT_ERROR_POLICY))"

definition listening_broker :: broker where
  "listening_broker = on ''x'' (Fn 1) (broker_with DEFAULT_ERROR_POLICY)"

definition mw_policy :: error_policy where
  "mw_policy =
     \<lparr>onListenerError = Some CONTINUE, onEmitError = Some CONTINUE,
      onMiddlewareError = Some (Handler 0)\<rparr>"

definition faulty_layer_broker :: broker where
  "faulty_layer_broker = use (Mw 2) (on ''x'' (Fn 1) (broker_with mw_policy))"

definition faulty_construct_broker :: broker where
  "faulty_construct_broker = use (Mw 1) (on ''x'' (Fn 1) (broker_with mw_policy))"

definition once_broker :: broker where
  "once_broker = once ''x'' (Fn 0) (broker_with DEFAULT_ERROR_POLICY)"

definition once_ok_broker :: broker where
  "once_ok_broker = once ''x'' (Fn 1) (broker_with DEFAULT_ERROR_POLICY)"

text \<open>
  Middleware that passes the event through. A body is \<open>quiet_body\<close> when it only logs,
  and \<open>after_logs\<close> is a body from its first statement that is not a log. A middleware
  is \<open>transparent\<close> for an event when calling it (\<open>middleware(next)\<close>) only logs, and the
  layer that it returns only logs, then calls \<open>next\<close> with the event it was given,
  outside any \<open>try\<close>, and only logs after that; the logger middleware is of this kind.
  \<open>mw_built\<close>, \<open>mw_before\<close> and \<open>mw_after\<close> are what such a middleware logs when it is
  called, before \<open>next\<close> and after it; \<open>chain_in\<close> is the output of the whole chain
  before the terminal stage runs and \<open>chain_out\<close> its output after the terminal stage has
  returned. \<open>settled r t s\<close> adds \<open>t\<close> to \<open>s\<close> when \<open>r\<close> is a normal return.
\<close>

definition quiet_body :: "stmt list \<Rightarrow> bool" where
  "quiet_body b \<longleftrightarrow> simple b \<and> body_err b = None"

fun after_logs :: "stmt list \<Rightarrow> stmt list" where
  "after_logs (Log m # ss) = after_logs ss"
| "after_logs ss = ss"

fun transparent :: "program \<Rightarrow> event \<Rightarrow> mwref \<Rightarrow> bool" where
  "transparent P ev (LoggerMw i) = True"
| "transparent P ev (Mw i) =
     (quiet_body (mw_construct P i) \<and>
      (case after_logs (mw_layer P i ev) of
         [] \<Rightarrow> False
       | c # post \<Rightarrow> c = CallNext ev \<and> quiet_body post))"

fun mw_built :: "program \<Rightarrow> mwref \<Rightarrow> obs list" where
  "mw_built P (LoggerMw i) = []"
| "mw_built P (Mw i) = body_obs (mw_construct P i)"

fun mw_before :: "program \<Rightarrow> event \<Rightarrow> mwref \<Rightarrow> obs list" where
  "mw_before P ev (LoggerMw i) = [LoggerGroup (ev_name ev) (ev_data ev)]"
| "mw_before P ev (Mw i) = body_obs (mw_layer P i ev)"

fun mw_after :: "program \<Rightarrow> event \<Rightarrow> mwref \<Rightarrow> obs list" where
  "mw_after P ev (LoggerMw i) = []"
| "mw_after P ev (Mw i) = body_obs (tl (after_logs (mw_layer P i ev)))"

definition chain_in :: "program \<Rightarrow> event \<Rightarrow> mwref list \<Rightarrow> obs list" where
  "chain_in P ev ms = concat (map (mw_built P) (rev ms)) @ concat (map (mw_before P ev) ms)"

definition chain_out :: "program \<Rightarrow> event \<Rightarrow> mwref list \<Rightarrow> obs list" where
  "chain_out P ev ms = concat (map (mw_after P ev) (rev ms))"

definition settled :: "outcome \<Rightarrow> obs list \<Rightarrow> broker \<Rightarrow> broker" where
  "settled r t s = (case r of Normal \<Rightarrow> logged t s | Thrown e \<Rightarrow> s)"

text \<open>
  A statement is \<open>scripted\<close> when it is a log or one of the broker operations \<open>on\<close>,
  \<open>once\<close>, \<open>off\<close>, \<open>clear\<close>, \<open>use\<close> and the remover of a middleware: it neither throws
  nor emits. \<open>run_ops\<close> is the state after a body of such statements, and \<open>untraced\<close>
  forgets the trace.
\<close>

fun scripted :: "stmt \<Rightarrow> bool" where
  "scripted (Log m) = True"
| "scripted (CallOn k f) = True"
| "scripted (CallOnce k f) = True"
| "scripted (CallOff k f) = True"
| "scripted CallClear = True"
| "scripted (CallUse m) = True"
| "scripted (CallRemove m) = True"
| "scripted c = False"

fun run_op :: "stmt \<Rightarrow> broker \<Rightarrow> broker" where
  "run_op (Log m) s = emitted (Logged m) s"
| "run_op (CallOn k f) s = on k f s"
| "run_op (CallOnce k f) s = once k f s"
| "run_op (CallOff k f) s = off k f s"
| "run_op CallClear s = clear s"
| "run_op (CallUse m) s = use m s"
| "run_op (CallRemove m) s = remove_mw m s"
| "run_op c s = s"

definition run_ops :: "stmt list \<Rightarrow> broker \<Rightarrow> broker" where
  "run_ops b s = fold run_op b s"

definition untraced :: "broker \<Rightarrow> broker" where
  "untraced s = s\<lparr>trace := []\<rparr>"

text \<open>
  A second sample program, whose middleware layers catch the error of \<open>next\<close> (\<open>0\<close>),
  call \<open>next\<close> with other data (\<open>1\<close>), throw after \<open>next\<close> (\<open>2\<close>) or log around
  \<open>next\<close> (the others), and sample brokers for it. \<open>relay_broker_with\<close> is built with
  \<open>logger: true\<close> and uses a middleware that logs around \<open>next\<close>.
\<close>

definition layered_program :: program where
  "layered_program =
     \<lparr>listener_code = (\<lambda>i d. if i = 0 then [Throw (Error ''boom'')]
                             else if i = 1 then [CallOff ''x'' (Fn 2), Throw (Error ''boom'')]
                             else if i = 5 then [CallOff ''x'' (Fn 5), CallOn ''x'' (Fn 2)]
                             else [Log ''ok'']),
      handler_code = (\<lambda>h e ev. []),
      mw_construct = (\<lambda>i. []),
      mw_layer = (\<lambda>i ev. if i = 0 then [TryCatch [CallNext ev] [Log ''caught''], Log ''after'']
                         else if i = 1 then [CallNext \<lparr>ev_name = ev_name ev, ev_data = 99\<rparr>]
                         else if i = 2 then [CallNext ev, Throw (Error ''late'')]
                         else [Log ''before'', CallNext ev, Log ''after''])\<rparr>"

definition relay_broker_with :: "error_policy \<Rightarrow> broker" where
  "relay_broker_with ep =
     use (Mw 3)
       (fst (createEventBroker \<lparr>opt_logger = True, opt_maxListeners = None,
                                opt_errorPolicy = Some ep, opt_middlewares = None\<rparr> 0))"

definition catching_broker :: broker where
  "catching_broker = use (Mw 0) (on ''x'' (Fn 2) (on ''x'' (Fn 0) (broker_with escalate_policy)))"

definition relay_stop_broker :: broker where
  "relay_stop_broker =
     on ''x'' (Fn 4) (on ''x'' (Fn 0) (on ''x'' (Fn 2) (relay_broker_with escalate_policy)))"

definition unsubscribing_broker :: broker where
  "unsubscribing_broker = on ''x'' (Fn 2) (on ''x'' (Fn 1) (broker_with DEFAULT_ERROR_POLICY))"

definition rewriting_broker :: broker where
  "rewriting_broker =
     use (Mw 1) (on ''x'' (Fn 2) (on ''x'' (Fn 0) (broker_with DEFAULT_ERROR_POLICY)))"

definition late_policy :: error_policy where
  "late_policy =
     \<lparr>onListenerError = Some CONTINUE, onEmitError = Some STOP,
      onMiddlewareError = Some CONTINUE\<rparr>"

definition late_broker :: broker where
  "late_broker = use (Mw 2) (on ''x'' (Fn 2) (on ''x'' (Fn 0) (broker_with late_policy)))"

definition relay_continue_broker :: broker where
  "relay_continue_broker =
     on ''x'' (Fn 2) (on ''x'' (Fn 0) (relay_broker_with DEFAULT_ERROR_POLICY))"

definition relay_quiet_broker :: broker where
  "relay_quiet_broker =
     on ''x'' (Fn 4) (on ''x'' (Fn 2) (relay_broker_with DEFAULT_ERROR_POLICY))"

definition resubscribing_broker :: broker where
  "resubscribing_broker = on ''x'' (Fn 5) (relay_broker_with DEFAULT_ERROR_POLICY)"

section \<open>Every function of the interpreter keeps what the operations keep\<close>

lemma keeps_0: "keeps I P 0"
  by (simp add: keeps_def)

lemma keeps_exec_Suc:
  assumes p: "preserved I" and k: "keeps I P n"
    and e: "exec P (Suc n) nxt ss s = Some (r, s')" and i: "I s"
  shows "I s'"
proof -
  have "\<forall>nxt ss s r s'. exec P n nxt ss s = Some (r, s') \<longrightarrow> I s \<longrightarrow> I s'"
    using k by (simp add: keeps_def)
  note ex = this[rule_format]
  have "\<forall>k d s r s'. emit P n k d s = Some (r, s') \<longrightarrow> I s \<longrightarrow> I s'"
    using k by (simp add: keeps_def)
  note em = this[rule_format]
  have "\<forall>ls k ev s r s'. composed P n ls k ev s = Some (r, s') \<longrightarrow> I s \<longrightarrow> I s'"
    using k by (simp add: keeps_def)
  note co = this[rule_format]
  have pr: "\<And>x. I (emitted x s)" "\<And>k f. I (on k f s)" "\<And>k f. I (once k f s)"
    "\<And>k f. I (off k f s)" "I (clear s)" "\<And>m. I (use m s)" "\<And>m. I (remove_mw m s)"
    using p i by (simp_all add: preserved_def)
  show ?thesis
  proof (cases ss)
    case Nil
    with e i show ?thesis by simp
  next
    case (Cons c cs)
    show ?thesis
    proof (cases c)
      case (TryCatch body handler)
      with e Cons i show ?thesis
        by (auto split: option.splits outcome.splits; metis ex)
    next
      case (CallEmit k d)
      with e Cons i show ?thesis
        by (auto split: option.splits outcome.splits; metis ex em)
    next
      case (CallNext ev)
      with e Cons i show ?thesis
        by (auto split: option.splits outcome.splits; metis ex co)
    qed (insert e Cons i pr, auto intro: ex)
  qed
qed

lemma keeps_call_listener_Suc:
  assumes p: "preserved I" and k: "keeps I P n"
    and e: "call_listener P (Suc n) f d s = Some (r, s')" and i: "I s"
  shows "I s'"
proof -
  have "\<forall>nxt ss s r s'. exec P n nxt ss s = Some (r, s') \<longrightarrow> I s \<longrightarrow> I s'"
    using k by (simp add: keeps_def)
  note ex = this[rule_format]
  have "\<forall>f d s r s'. call_listener P n f d s = Some (r, s') \<longrightarrow> I s \<longrightarrow> I s'"
    using k by (simp add: keeps_def)
  note cl = this[rule_format]
  have pr: "\<And>s x. I s \<Longrightarrow> I (emitted x s)" "\<And>s k f. I s \<Longrightarrow> I (off k f s)"
    using p by (simp_all add: preserved_def)
  show ?thesis
  proof (cases f)
    case (Fn j)
    with e have "exec P n None (listener_code P j d) (emitted (Called (Fn j) d) s) = Some (r, s')"
      by simp
    then show ?thesis using ex pr(1)[OF i] by blast
  next
    case (OnceWrapper j k g)
    let ?s0 = "emitted (Called (OnceWrapper j k g) d) s"
    from e OnceWrapper obtain r1 s1 where
      c: "call_listener P n g d ?s0 = Some (r1, s1)"
      and s': "s' = s1 \<or> s' = off k (OnceWrapper j k g) s1"
      by (auto split: option.splits outcome.splits)
    from cl[OF c pr(1)[OF i]] have "I s1" .
    with s' pr(2) show ?thesis by blast
  qed
qed

lemma keeps_strategy_Suc:
  assumes p: "preserved I" and k: "keeps I P n"
    and e: "getErrorHandlingStrategy P (Suc n) pol er ev ty s = Some (r, s')" and i: "I s"
  shows "I s'"
proof -
  have "\<forall>nxt ss s r s'. exec P n nxt ss s = Some (r, s') \<longrightarrow> I s \<longrightarrow> I s'"
    using k by (simp add: keeps_def)
  note ex = this[rule_format]
  have pr: "\<And>x. I (emitted x s)"
    using p i by (simp_all add: preserved_def)
  show ?thesis
    using e i pr by (cases pol) (auto split: option.splits outcome.splits intro: ex)
qed

lemma keeps_handleError_Suc:
  assumes k: "keeps I P n"
    and e: "handleError P (Suc n) er ev ty s = Some (r, s')" and i: "I s"
  shows "I s'"
proof -
  have "\<forall>pol e ev ty s r s'. getErrorHandlingStrategy P n pol e ev ty s = Some (r, s')
          \<longrightarrow> I s \<longrightarrow> I s'"
    using k by (simp add: keeps_def)
  note st = this[rule_format]
  show ?thesis
    using e i by (auto split: option.splits intro: st)
qed

lemma keeps_terminal_Suc:
  assumes k: "keeps I P n"
    and e: "terminal P (Suc n) a j ev s = Some (r, s')" and i: "I s"
  shows "I s'"
proof -
  have "\<forall>f d s r s'. call_listener P n f d s = Some (r, s') \<longrightarrow> I s \<longrightarrow> I s'"
    using k by (simp add: keeps_def)
  note cl = this[rule_format]
  have "\<forall>e ev ty s r s'. handleError P n e ev ty s = Some (r, s') \<longrightarrow> I s \<longrightarrow> I s'"
    using k by (simp add: keeps_def)
  note he = this[rule_format]
  have "\<forall>a i ev s r s'. terminal P n a i ev s = Some (r, s') \<longrightarrow> I s \<longrightarrow> I s'"
    using k by (simp add: keeps_def)
  note te = this[rule_format]
  show ?thesis
    using e i
    by (auto split: if_splits option.splits outcome.splits sum.splits; metis cl he te)
qed

lemma keeps_composed_Suc:
  assumes p: "preserved I" and k: "keeps I P n"
    and e: "composed P (Suc n) ls kk ev s = Some (r, s')" and i: "I s"
  shows "I s'"
proof -
  have "\<forall>nxt ss s r s'. exec P n nxt ss s = Some (r, s') \<longrightarrow> I s \<longrightarrow> I s'"
    using k by (simp add: keeps_def)
  note ex = this[rule_format]
  have "\<forall>a i ev s r s'. terminal P n a i ev s = Some (r, s') \<longrightarrow> I s \<longrightarrow> I s'"
    using k by (simp add: keeps_def)
  note te = this[rule_format]
  have "\<forall>ls k ev s r s'. composed P n ls k ev s = Some (r, s') \<longrightarrow> I s \<longrightarrow> I s'"
    using k by (simp add: keeps_def)
  note co = this[rule_format]
  have pr: "\<And>x. I (emitted x s)"
    using p i by (simp_all add: preserved_def)
  show ?thesis
  proof (cases ls)
    case Nil
    with e i show ?thesis by (auto split: option.splits intro: te)
  next
    case (Cons m ms)
    with e i pr show ?thesis by (cases m) (auto intro: ex co)
  qed
qed

lemma keeps_reduceRight_Suc:
  assumes k: "keeps I P n"
    and e: "reduceRight P (Suc n) ms nxt kk d s = Some (r, s')" and i: "I s"
  shows "I s'"
proof -
  have "\<forall>nxt ss s r s'. exec P n nxt ss s = Some (r, s') \<longrightarrow> I s \<longrightarrow> I s'"
    using k by (simp add: keeps_def)
  note ex = this[rule_format]
  have "\<forall>e ev ty s r s'. handleError P n e ev ty s = Some (r, s') \<longrightarrow> I s \<longrightarrow> I s'"
    using k by (simp add: keeps_def)
  note he = this[rule_format]
  have "\<forall>ms nxt k d s r s'. reduceRight P n ms nxt k d s = Some (r, s') \<longrightarrow> I s \<longrightarrow> I s'"
    using k by (simp add: keeps_def)
  note rr = this[rule_format]
  show ?thesis
  proof (cases ms)
    case Nil
    with e i show ?thesis by simp
  next
    case (Cons m ms')
    with e i show ?thesis
      by (cases m)
         (auto split: if_splits option.splits outcome.splits sum.splits; metis ex he rr)+
  qed
qed

lemma keeps_emit_try_Suc:
  assumes k: "keeps I P n"
    and e: "emit_try P (Suc n) kk d s = Some (r, s')" and i: "I s"
  shows "I s'"
proof -
  have "\<forall>ls k ev s r s'. composed P n ls k ev s = Some (r, s') \<longrightarrow> I s \<longrightarrow> I s'"
    using k by (simp add: keeps_def)
  note co = this[rule_format]
  have "\<forall>ms nxt k d s r s'. reduceRight P n ms nxt k d s = Some (r, s') \<longrightarrow> I s \<longrightarrow> I s'"
    using k by (simp add: keeps_def)
  note rr = this[rule_format]
  show ?thesis
    using e i by (auto split: option.splits sum.splits; metis co rr)
qed

lemma keeps_emit_Suc:
  assumes k: "keeps I P n"
    and e: "emit P (Suc n) kk d s = Some (r, s')" and i: "I s"
  shows "I s'"
proof -
  have "\<forall>e ev ty s r s'. handleError P n e ev ty s = Some (r, s') \<longrightarrow> I s \<longrightarrow> I s'"
    using k by (simp add: keeps_def)
  note he = this[rule_format]
  have "\<forall>k d s r s'. emit_try P n k d s = Some (r, s') \<longrightarrow> I s \<longrightarrow> I s'"
    using k by (simp add: keeps_def)
  note et = this[rule_format]
  show ?thesis
    using e i by (auto split: option.splits outcome.splits sum.splits; metis he et)
qed

lemma keeps_Suc:
  assumes p: "preserved I" and k: "keeps I P n"
  shows "keeps I P (Suc n)"
  unfolding keeps_def
  apply (intro conjI allI impI)
          apply (erule (1) keeps_exec_Suc[OF p k])
         apply (erule (1) keeps_call_listener_Suc[OF p k])
        apply (erule (1) keeps_strategy_Suc[OF p k])
       apply (erule (1) keeps_handleError_Suc[OF k])
      apply (erule (1) keeps_terminal_Suc[OF k])
     apply (erule (1) keeps_composed_Suc[OF p k])
    apply (erule (1) keeps_reduceRight_Suc[OF k])
   apply (erule (1) keeps_emit_try_Suc[OF k])
  apply (erule (1) keeps_emit_Suc[OF k])
  done

lemma keeps_all: "preserved I \<Longrightarrow> keeps I P n"
  by (induction n) (simp_all add: keeps_0 keeps_Suc)

lemma emit_keeps:
  "preserved I \<Longrightarrow> emit P n k d s = Some (r, s') \<Longrightarrow> I s \<Longrightarrow> I s'"
  using keeps_all[of I P n] by (simp add: keeps_def)


lemmas sample_defs =
  sample_program_def broker_with_def createEventBroker_def constructor_def
  DEFAULT_ERROR_POLICY_def DEFAULT_MAX_LISTENERS_def on_def off_def once_def clear_def use_def
  remove_mw_def mw_add_def emitted_def set_add_def set_delete_def set_size_def members_def Let_def

lemma preserved_errorPolicy: "preserved (\<lambda>s. errorPolicy s = ep)"
  by (simp add: preserved_def emitted_def on_def once_def off_def clear_def use_def
      remove_mw_def Let_def split: option.splits)


lemma call_listener_errorPolicy:
  "call_listener P n f d s = Some (r, s') \<Longrightarrow> errorPolicy s' = errorPolicy s"
  using keeps_all[OF preserved_errorPolicy, of "errorPolicy s" P n] by (simp add: keeps_def)

lemma handleError_continue:
  "policy_map (errorPolicy s) ty = Some CONTINUE \<Longrightarrow>
   handleError P (Suc (Suc n)) e ev ty s = Some (Inr True, emitted (ConsoleError ty (ev_name ev) e) s)"
  by simp

lemma handleError_stop:
  "policy_map (errorPolicy s) ty = Some STOP \<Longrightarrow>
   handleError P (Suc (Suc n)) e ev ty s = Some (Inl e, s)"
  by simp

lemma handleError_omitted:
  "policy_map (errorPolicy s) ty = None \<Longrightarrow>
   handleError P (Suc n) e ev ty s = Some (Inl (Error (''Invalid error type: '' @ tag ty)), s)"
  by simp


section \<open>The constructor and the caller's middleware array\<close>

text \<open>
  C10. When \<open>createEventBroker\<close> is called with \<open>logger\<close> truthy and a middleware array of
  the caller's, the constructor pushes the logger middleware onto that very array: after
  the call the caller's array is the old one with the logger middleware appended, and the
  broker's middleware set is built from that array.
\<close>

theorem constructor_pushes_logger_onto_callers_array:
  assumes "opt_logger opts" and "opt_middlewares opts = Some ms"
  shows "snd (createEventBroker opts lg) = Some (ms @ [LoggerMw lg])
       \<and> middlewares (fst (createEventBroker opts lg)) = foldl mw_add [] (ms @ [LoggerMw lg])"
  using assms by (simp add: createEventBroker_def constructor_def)

theorem constructor_pushes_logger_witness:
  "snd (createEventBroker \<lparr>opt_logger = True, opt_maxListeners = None, opt_errorPolicy = None,
                           opt_middlewares = Some [Mw 0, Mw 1]\<rparr> 7)
     = Some [Mw 0, Mw 1, LoggerMw 7]
   \<and> middlewares (fst (createEventBroker \<lparr>opt_logger = True, opt_maxListeners = None,
                           opt_errorPolicy = None, opt_middlewares = Some [Mw 0, Mw 1]\<rparr> 7))
     = [Mw 0, Mw 1, LoggerMw 7]"
  using constructor_pushes_logger_onto_callers_array
          [of "\<lparr>opt_logger = True, opt_maxListeners = None, opt_errorPolicy = None,
                opt_middlewares = Some [Mw 0, Mw 1]\<rparr>" "[Mw 0, Mw 1]" 7]
  by (simp add: mw_add_def)

section \<open>Omitted error-policy slots\<close>






section \<open>When \<open>emit\<close> throws\<close>




lemma escalate_broker_fields:
  "errorPolicy escalate_broker = escalate_policy"
  "listeners escalate_broker ''x'' = Some 0"
  "heap escalate_broker 0 = [Some (Fn 0), Some (Fn 1)]"
  "middlewares escalate_broker = []"
  by (simp_all add: escalate_broker_def sample_defs)





section \<open>Listeners that only log and throw\<close>

lemma logged_simps [simp]:
  "listeners (logged t s) = listeners s"
  "heap (logged t s) = heap s"
  "next_set (logged t s) = next_set s"
  "middlewares (logged t s) = middlewares s"
  "errorPolicy (logged t s) = errorPolicy s"
  "maxListeners (logged t s) = maxListeners s"
  "next_fn (logged t s) = next_fn s"
  "trace (logged t s) = trace s @ t"
  "logged [] s = s"
  "logged t (logged u s) = logged (u @ t) s"
  "emitted x s = logged [x] s"
  by (simp_all add: logged_def emitted_def)

lemma event_eta [simp]: "\<lparr>ev_name = ev_name ev, ev_data = ev_data ev\<rparr> = (ev :: event)"
  by simp

lemma returnsI: "(\<And>n. N \<le> n \<Longrightarrow> f n = Some r) \<Longrightarrow> returns f r"
  unfolding returns_def by blast

lemma returnsE: "returns f r \<Longrightarrow> (\<And>N. (\<And>n. N \<le> n \<Longrightarrow> f n = Some r) \<Longrightarrow> thesis) \<Longrightarrow> thesis"
  unfolding returns_def by blast

lemma returns_Suc: "returns g r \<Longrightarrow> (\<And>n. f (Suc n) = g n) \<Longrightarrow> returns f r"
proof (erule returnsE)
  fix N assume g: "\<And>n. N \<le> n \<Longrightarrow> g n = Some r" and f: "\<And>n. f (Suc n) = g n"
  show "returns f r"
  proof (rule returnsI[of "Suc N"])
    fix n assume "Suc N \<le> n"
    then obtain m where "n = Suc m" "N \<le> m" by (cases n) auto
    then show "f n = Some r" using f g by simp
  qed
qed

lemma returns_unique: "returns f r \<Longrightarrow> returns f r' \<Longrightarrow> r = r'"
  unfolding returns_def by (metis max.cobounded1 max.cobounded2 option.inject)

lemma exec_simple:
  "simple ss \<Longrightarrow> length ss < n \<Longrightarrow>
   exec P n nxt ss s = Some (outcome_of (body_err ss), logged (body_obs ss) s)"
proof (induction ss arbitrary: n s)
  case Nil
  then show ?case by (cases n) (simp_all add: outcome_of_def)
next
  case (Cons c cs)
  then obtain m where n: "n = Suc m" by (cases n) auto
  show ?case
  proof (cases c)
    case (Log x)
    with Cons n show ?thesis by simp
  next
    case (Throw e)
    with n show ?thesis by (simp add: outcome_of_def)
  qed (use Cons.prems in simp_all)
qed

lemma call_listener_simple:
  assumes "simple (listener_code P j d)" and "length (listener_code P j d) + 2 \<le> n"
  shows "call_listener P n (Fn j) d s
           = Some (outcome_of (body_err (listener_code P j d)),
                   logged (Called (Fn j) d # body_obs (listener_code P j d)) s)"
proof -
  from assms(2) obtain m where n: "n = Suc m" and m: "length (listener_code P j d) < m"
    by (cases n) auto
  show ?thesis using exec_simple[OF assms(1) m] n by simp
qed

lemma handleError_simple:
  assumes "policy_map (errorPolicy s) ty = pol" and "handler_simple P pol e ev"
  shows "returns (\<lambda>n. handleError P n e ev ty s)
           (fst (handled P pol ty e ev), logged (snd (handled P pol ty e ev)) s)"
proof (cases pol)
  case None
  show ?thesis
  proof (rule returnsI[of 1])
    fix n :: nat assume "1 \<le> n"
    then obtain m where "n = Suc m" by (cases n) auto
    with assms None show "handleError P n e ev ty s
        = Some (fst (handled P pol ty e ev), logged (snd (handled P pol ty e ev)) s)"
      by (simp add: handled_def)
  qed
next
  case (Some p)
  show ?thesis
  proof (cases p)
    case (Handler h)
    let ?hb = "handler_code P h e ev"
    from assms(2) Some Handler have sb: "simple ?hb" by (simp add: handler_simple_def)
    show ?thesis
    proof (rule returnsI[of "length ?hb + 3"])
      fix n assume "length ?hb + 3 \<le> n"
      then obtain m where n: "n = Suc (Suc m)" and m: "length ?hb < m"
        by (cases n; cases "n - 1") auto
      show "handleError P n e ev ty s
        = Some (fst (handled P pol ty e ev), logged (snd (handled P pol ty e ev)) s)"
        using assms(1) Some Handler n exec_simple[OF sb m, of P None s]
        by (simp add: handled_def outcome_of_def split: option.splits)
    qed
  next
    case CONTINUE
    show ?thesis
    proof (rule returnsI[of 2])
      fix n :: nat assume "2 \<le> n"
      then obtain m where n: "n = Suc (Suc m)" by (cases n; cases "n - 1") auto
      with assms Some CONTINUE show "handleError P n e ev ty s
        = Some (fst (handled P pol ty e ev), logged (snd (handled P pol ty e ev)) s)"
        by (simp add: handled_def)
    qed
  next
    case STOP
    show ?thesis
    proof (rule returnsI[of 2])
      fix n :: nat assume "2 \<le> n"
      then obtain m where n: "n = Suc (Suc m)" by (cases n; cases "n - 1") auto
      with assms Some STOP show "handleError P n e ev ty s
        = Some (fst (handled P pol ty e ev), logged (snd (handled P pol ty e ev)) s)"
        by (simp add: handled_def)
    qed
  qed
qed

lemma members_Nil [simp]: "members [] = []"
  by (simp add: members_def)

lemma members_drop_ge: "length es \<le> i \<Longrightarrow> members (drop i es) = []"
  by (simp add: members_def)

lemma members_drop_None:
  "i < length es \<Longrightarrow> es ! i = None \<Longrightarrow> members (drop i es) = members (drop (Suc i) es)"
  by (simp add: members_def Cons_nth_drop_Suc[symmetric])

lemma members_drop_Some:
  "i < length es \<Longrightarrow> es ! i = Some f \<Longrightarrow> members (drop i es) = f # members (drop (Suc i) es)"
  by (simp add: members_def Cons_nth_drop_Suc[symmetric])

lemma terminal_walk:
  assumes "heap s a = es"
    and "walkable P pol ev (members (drop i es))"
    and "onListenerError (errorPolicy s) = pol"
  shows "returns (\<lambda>n. terminal P n a i ev s)
           (fst (walk P pol ev (members (drop i es))),
            logged (snd (walk P pol ev (members (drop i es)))) s)"
  using assms
proof (induction "length es - i" arbitrary: i s)
  case 0
  then have ge: "length es \<le> i" by simp
  show ?case
  proof (rule returnsI[of 1])
    fix n :: nat assume "1 \<le> n"
    then obtain m where "n = Suc m" by (cases n) auto
    with ge "0.prems"(1) show "terminal P n a i ev s
        = Some (fst (walk P pol ev (members (drop i es))),
                logged (snd (walk P pol ev (members (drop i es)))) s)"
      by (simp add: members_drop_ge)
  qed
next
  case (Suc x)
  then have i: "i < length es" and x: "x = length es - Suc i" by simp_all
  note hp = Suc.prems(1) and pl = Suc.prems(3)
  show ?case
  proof (cases "es ! i")
    case None
    have m: "members (drop i es) = members (drop (Suc i) es)"
      using i None by (rule members_drop_None)
    have "returns (\<lambda>n. terminal P n a (Suc i) ev s)
           (fst (walk P pol ev (members (drop (Suc i) es))),
            logged (snd (walk P pol ev (members (drop (Suc i) es)))) s)"
      using Suc.hyps(1)[OF x hp _ pl] Suc.prems(2) m by simp
    then show ?thesis
      unfolding m by (rule returns_Suc) (simp add: hp i None)
  next
    case (Some f)
    have m: "members (drop i es) = f # members (drop (Suc i) es)"
      using i Some by (rule members_drop_Some)
    let ?rest = "members (drop (Suc i) es)"
    from Suc.prems(2) m have tf: "walkable P pol ev (f # ?rest)" by simp
    from tf obtain j where f: "f = Fn j" by (cases f) auto
    let ?d = "ev_data ev"
    let ?body = "listener_code P j ?d"
    let ?t = "Called (Fn j) ?d # body_obs ?body"
    let ?s1 = "logged ?t s"
    from tf f have sb: "simple ?body" by simp
    have call: "\<And>n. length ?body + 2 \<le> n \<Longrightarrow>
        call_listener P n (Fn j) ?d s = Some (outcome_of (body_err ?body), ?s1)"
      using call_listener_simple[OF sb] by blast
    show ?thesis
    proof (cases "body_err ?body")
      case None
      have "returns (\<lambda>n. terminal P n a (Suc i) ev ?s1)
              (fst (walk P pol ev ?rest), logged (snd (walk P pol ev ?rest)) ?s1)"
        using Suc.hyps(1)[OF x, of ?s1] hp tf f None pl by simp
      then obtain N1 where N1: "\<And>n. N1 \<le> n \<Longrightarrow> terminal P n a (Suc i) ev ?s1
            = Some (fst (walk P pol ev ?rest), logged (snd (walk P pol ev ?rest)) ?s1)"
        by (auto simp: returns_def)
      show ?thesis
      proof (rule returnsI[of "Suc (max N1 (length ?body + 2))"])
        fix n assume "Suc (max N1 (length ?body + 2)) \<le> n"
        then obtain k where n: "n = Suc k" and k1: "N1 \<le> k" and k2: "length ?body + 2 \<le> k"
          by (cases n) auto
        show "terminal P n a i ev s
           = Some (fst (walk P pol ev (members (drop i es))),
                   logged (snd (walk P pol ev (members (drop i es)))) s)"
          using n hp i Some f call[OF k2] N1[OF k1] None m
          by (simp add: outcome_of_def split: prod.splits)
      qed
    next
      case (Some e)
      note err = Some
      from tf f err have hs: "handler_simple P pol e ev" by simp
      obtain hr th where H: "handled P pol LISTENER e ev = (hr, th)" by (cases "handled P pol LISTENER e ev")
      have "returns (\<lambda>n. handleError P n e ev LISTENER ?s1) (hr, logged th ?s1)"
        using handleError_simple[of ?s1 LISTENER pol P e ev] pl hs H by simp
      then obtain Nh where Nh: "\<And>n. Nh \<le> n \<Longrightarrow>
          handleError P n e ev LISTENER ?s1 = Some (hr, logged th ?s1)"
        by (auto simp: returns_def)
      show ?thesis
      proof (cases hr)
        case (Inl e')
        show ?thesis
        proof (rule returnsI[of "Suc (max Nh (length ?body + 2))"])
          fix n assume "Suc (max Nh (length ?body + 2)) \<le> n"
          then obtain k where n: "n = Suc k" and k1: "Nh \<le> k" and k2: "length ?body + 2 \<le> k"
            by (cases n) auto
          show "terminal P n a i ev s
             = Some (fst (walk P pol ev (members (drop i es))),
                     logged (snd (walk P pol ev (members (drop i es)))) s)"
            using n hp i \<open>es ! i = Some f\<close> f call[OF k2] Nh[OF k1] err m H Inl
            by (simp add: outcome_of_def)
        qed
      next
        case (Inr b)
        let ?s2 = "logged th ?s1"
        have "returns (\<lambda>n. terminal P n a (Suc i) ev ?s2)
                (fst (walk P pol ev ?rest), logged (snd (walk P pol ev ?rest)) ?s2)"
          using Suc.hyps(1)[OF x, of ?s2] hp tf f err H Inr pl by simp
        then obtain N1 where N1: "\<And>n. N1 \<le> n \<Longrightarrow> terminal P n a (Suc i) ev ?s2
              = Some (fst (walk P pol ev ?rest), logged (snd (walk P pol ev ?rest)) ?s2)"
          by (auto simp: returns_def)
        show ?thesis
        proof (rule returnsI[of "Suc (max (max Nh N1) (length ?body + 2))"])
          fix n assume "Suc (max (max Nh N1) (length ?body + 2)) \<le> n"
          then obtain k where n: "n = Suc k" and k1: "Nh \<le> k" and k3: "N1 \<le> k"
            and k2: "length ?body + 2 \<le> k"
            by (cases n) auto
          show "terminal P n a i ev s
             = Some (fst (walk P pol ev (members (drop i es))),
                     logged (snd (walk P pol ev (members (drop i es)))) s)"
            using n hp i \<open>es ! i = Some f\<close> f call[OF k2] Nh[OF k1] N1[OF k3] err m H Inr
            by (simp add: outcome_of_def split: prod.splits)
        qed
      qed
    qed
  qed
qed

lemma emit_try_no_middleware:
  "middlewares s = [] \<Longrightarrow> listeners s k = Some a \<Longrightarrow>
   emit_try P (Suc (Suc n)) k d s = terminal P n a 0 \<lparr>ev_name = k, ev_data = d\<rparr> s"
  by simp

lemma calls_append [simp]: "calls (t @ u) = calls t @ calls u"
  by (induction t rule: calls.induct) simp_all

lemma calls_body_obs [simp]: "calls (body_obs ss) = []"
  by (induction ss rule: body_obs.induct) simp_all

lemma calls_Logged [simp]: "calls (map Logged ms) = []"
  by (induction ms) simp_all

lemma throwing_body [simp]:
  "simple (map Log ms @ Throw e # rest)"
  "body_err (map Log ms @ Throw e # rest) = Some e"
  "body_obs (map Log ms @ Throw e # rest) = map Logged ms"
  by (induction ms) simp_all

lemma logging_body [simp]:
  "simple (map Log ms)"
  "body_err (map Log ms) = None"
  "body_obs (map Log ms) = map Logged ms"
  by (induction ms) simp_all

lemma walk_quiet_append:
  assumes "\<forall>g\<in>set pre. quiet P (ev_data ev) g"
  shows "walk P pol ev (pre @ fs)
           = (fst (walk P pol ev fs), snd (walk P pol ev pre) @ snd (walk P pol ev fs))
       \<and> calls (snd (walk P pol ev pre)) = map (\<lambda>g. (g, ev_data ev)) pre
       \<and> fst (walk P pol ev pre) = Normal
       \<and> walkable P pol ev (pre @ fs) = walkable P pol ev fs"
  using assms
proof (induction pre)
  case Nil
  then show ?case by simp
next
  case (Cons g pre)
  then obtain j where g: "g = Fn j" by (cases g) auto
  with Cons show ?case by (auto split: prod.splits)
qed

section \<open>Middleware that passes the event through\<close>

lemma exec_logs_prefix:
  "exec P (length ms + n) nxt (map Log ms @ rest) s
     = exec P n nxt rest (logged (map Logged ms) s)"
  by (induction ms arbitrary: s) simp_all

lemma exec_layer_returns:
  assumes "returns (\<lambda>n. composed P n layers k ev (logged (map Logged pre) s)) (Normal, s2)"
  shows "returns (\<lambda>n. exec P n (Some (layers, k)) (map Log pre @ CallNext ev # map Log post) s)
           (Normal, logged (map Logged post) s2)"
proof -
  from assms obtain N where N: "\<And>n. N \<le> n \<Longrightarrow>
      composed P n layers k ev (logged (map Logged pre) s) = Some (Normal, s2)"
    by (auto simp: returns_def)
  show ?thesis
  proof (rule returnsI[of "length pre + Suc (max N (Suc (length post)))"])
    fix n assume "length pre + Suc (max N (Suc (length post))) \<le> n"
    then obtain m where n: "n = length pre + Suc m" and m1: "N \<le> m"
      and m2: "length (map Log post) < m"
      by (intro that[of "n - length pre - 1"]) auto
    have "exec P m (Some (layers, k)) (map Log post) s2
            = Some (Normal, logged (map Logged post) s2)"
      using exec_simple[OF logging_body(1) m2, of P "Some (layers, k)" s2]
      by (simp add: outcome_of_def)
    then show "exec P n (Some (layers, k)) (map Log pre @ CallNext ev # map Log post) s
            = Some (Normal, logged (map Logged post) s2)"
      unfolding n exec_logs_prefix using N[OF m1] by simp
  qed
qed

lemma composed_terminal_returns:
  "listeners s k = Some a \<Longrightarrow> returns (\<lambda>n. terminal P n a 0 ev s) R
   \<Longrightarrow> returns (\<lambda>n. composed P n [] k ev s) R"
  by (erule returns_Suc) simp

lemma composed_Mw_returns:
  "returns (\<lambda>n. exec P n (Some (layers, k)) (mw_layer P i ev) s) R
   \<Longrightarrow> returns (\<lambda>n. composed P n (Mw i # layers) k ev s) R"
  by (erule returns_Suc) simp

lemma settled_simps [simp]:
  "settled Normal t s = logged t s"
  "settled (Thrown e) t s = s"
  "settled r [] s = s"
  by (simp_all add: settled_def split: outcome.splits)

lemma split_logs: "\<exists>ms. ss = map Log ms @ after_logs ss \<and> body_obs ss = map Logged ms"
proof (induction ss rule: after_logs.induct)
  case (1 m ss)
  then obtain ms where "ss = map Log ms @ after_logs ss" "body_obs ss = map Logged ms" by blast
  then have "Log m # ss = map Log (m # ms) @ after_logs (Log m # ss)
      \<and> body_obs (Log m # ss) = map Logged (m # ms)" by simp
  then show ?case by blast
qed (auto intro: exI[of _ "[]"])

lemma exec_layer_through:
  assumes "returns (\<lambda>n. composed P n layers k ev (logged (map Logged pre) s)) (r, s2)"
    and "quiet_body post"
  shows "returns (\<lambda>n. exec P n (Some (layers, k)) (map Log pre @ CallNext ev # post) s)
           (r, settled r (body_obs post) s2)"
proof -
  from assms(1) obtain N where N: "\<And>n. N \<le> n \<Longrightarrow>
      composed P n layers k ev (logged (map Logged pre) s) = Some (r, s2)"
    by (auto simp: returns_def)
  from assms(2) have sp: "simple post" and ep: "body_err post = None"
    by (simp_all add: quiet_body_def)
  show ?thesis
  proof (rule returnsI[of "length pre + Suc (max N (Suc (length post)))"])
    fix n assume "length pre + Suc (max N (Suc (length post))) \<le> n"
    then obtain m where n: "n = length pre + Suc m" and m1: "N \<le> m"
      and m2: "length post < m"
      by (intro that[of "n - length pre - 1"]) auto
    have "exec P m (Some (layers, k)) post s2 = Some (Normal, logged (body_obs post) s2)"
      using exec_simple[OF sp m2, of P "Some (layers, k)" s2] ep
      by (simp add: outcome_of_def)
    then show "exec P n (Some (layers, k)) (map Log pre @ CallNext ev # post) s
            = Some (r, settled r (body_obs post) s2)"
      unfolding n exec_logs_prefix using N[OF m1] by (cases r) simp_all
  qed
qed

lemma composed_through:
  assumes "\<forall>m\<in>set ls. transparent P ev m"
    and "returns (\<lambda>n. composed P n [] k ev (logged (concat (map (mw_before P ev) ls)) s))
           (r, s')"
  shows "returns (\<lambda>n. composed P n ls k ev s)
           (r, settled r (concat (map (mw_after P ev) (rev ls))) s')"
  using assms
proof (induction ls arbitrary: s)
  case Nil
  then show ?case by simp
next
  case (Cons m ls)
  show ?case
  proof (cases m)
    case (LoggerMw i)
    have "returns (\<lambda>n. composed P n ls k ev (logged [LoggerGroup (ev_name ev) (ev_data ev)] s))
            (r, settled r (concat (map (mw_after P ev) (rev ls))) s')"
      using Cons.IH[of "logged [LoggerGroup (ev_name ev) (ev_data ev)] s"] Cons.prems LoggerMw
      by simp
    then have "returns (\<lambda>n. composed P n (LoggerMw i # ls) k ev s)
            (r, settled r (concat (map (mw_after P ev) (rev ls))) s')"
      by (rule returns_Suc) simp
    with LoggerMw show ?thesis by simp
  next
    case (Mw i)
    from Cons.prems(1) Mw obtain post where
      al: "after_logs (mw_layer P i ev) = CallNext ev # post" and qp: "quiet_body post"
      by (auto split: list.splits)
    from split_logs[of "mw_layer P i ev"] al obtain pre where
      layer: "mw_layer P i ev = map Log pre @ CallNext ev # post"
      and bo: "body_obs (mw_layer P i ev) = map Logged pre" by auto
    have "returns (\<lambda>n. composed P n ls k ev (logged (map Logged pre) s))
            (r, settled r (concat (map (mw_after P ev) (rev ls))) s')"
      using Cons.IH[of "logged (map Logged pre) s"] Cons.prems Mw bo by simp
    then have "returns (\<lambda>n. exec P n (Some (ls, k)) (mw_layer P i ev) s)
            (r, settled r (body_obs post) (settled r (concat (map (mw_after P ev) (rev ls))) s'))"
      unfolding layer using qp by (rule exec_layer_through)
    then have "returns (\<lambda>n. composed P n (Mw i # ls) k ev s)
            (r, settled r (body_obs post) (settled r (concat (map (mw_after P ev) (rev ls))) s'))"
      by (rule composed_Mw_returns)
    with Mw al show ?thesis by (cases r) simp_all
  qed
qed

lemma reduceRight_through:
  assumes "\<forall>m\<in>set ms. transparent P ev m"
  shows "returns (\<lambda>n. reduceRight P n ms nxt k d s)
           (Inr (rev ms @ nxt), logged (concat (map (mw_built P) ms)) s)"
  using assms
proof (induction ms arbitrary: nxt s)
  case Nil
  show ?case
  proof (rule returnsI[of 1])
    fix n :: nat assume "1 \<le> n"
    then obtain m where "n = Suc m" by (cases n) auto
    then show "reduceRight P n [] nxt k d s
        = Some (Inr (rev [] @ nxt), logged (concat (map (mw_built P) [])) s)" by simp
  qed
next
  case (Cons m ms)
  show ?case
  proof (cases m)
    case (LoggerMw i)
    have "returns (\<lambda>n. reduceRight P n ms (LoggerMw i # nxt) k d s)
            (Inr (rev ms @ LoggerMw i # nxt), logged (concat (map (mw_built P) ms)) s)"
      using Cons.IH[of "LoggerMw i # nxt" s] Cons.prems by simp
    then have "returns (\<lambda>n. reduceRight P n (LoggerMw i # ms) nxt k d s)
            (Inr (rev ms @ LoggerMw i # nxt), logged (concat (map (mw_built P) ms)) s)"
      by (rule returns_Suc) simp
    with LoggerMw show ?thesis by simp
  next
    case (Mw i)
    let ?c = "mw_construct P i"
    let ?s1 = "logged (body_obs ?c) s"
    from Cons.prems Mw have sc: "simple ?c" and ec: "body_err ?c = None"
      by (simp_all add: quiet_body_def)
    have "returns (\<lambda>n. reduceRight P n ms (Mw i # nxt) k d ?s1)
            (Inr (rev ms @ Mw i # nxt), logged (concat (map (mw_built P) ms)) ?s1)"
      using Cons.IH[of "Mw i # nxt" ?s1] Cons.prems by simp
    then obtain N where N: "\<And>n. N \<le> n \<Longrightarrow> reduceRight P n ms (Mw i # nxt) k d ?s1
        = Some (Inr (rev ms @ Mw i # nxt), logged (concat (map (mw_built P) ms)) ?s1)"
      by (auto simp: returns_def)
    have "returns (\<lambda>n. reduceRight P n (Mw i # ms) nxt k d s)
            (Inr (rev ms @ Mw i # nxt), logged (concat (map (mw_built P) ms)) ?s1)"
    proof (rule returnsI[of "Suc (max N (Suc (length ?c)))"])
      fix n assume "Suc (max N (Suc (length ?c))) \<le> n"
      then obtain m where n: "n = Suc m" and m1: "N \<le> m" and m2: "length ?c < m"
        by (cases n) auto
      show "reduceRight P n (Mw i # ms) nxt k d s
          = Some (Inr (rev ms @ Mw i # nxt), logged (concat (map (mw_built P) ms)) ?s1)"
        using n N[OF m1] exec_simple[OF sc m2, of P "Some (nxt, k)" s] ec
        by (simp add: outcome_of_def)
    qed
    with Mw show ?thesis by simp
  qed
qed

lemma emit_try_through:
  assumes "\<forall>m\<in>set (middlewares s). transparent P \<lparr>ev_name = k, ev_data = d\<rparr> m"
    and "returns (\<lambda>n. composed P n [] k \<lparr>ev_name = k, ev_data = d\<rparr>
                   (logged (chain_in P \<lparr>ev_name = k, ev_data = d\<rparr> (middlewares s)) s)) (r, s')"
  shows "returns (\<lambda>n. emit_try P n k d s)
           (r, settled r (chain_out P \<lparr>ev_name = k, ev_data = d\<rparr> (middlewares s)) s')"
proof -
  let ?ev = "\<lparr>ev_name = k, ev_data = d\<rparr>"
  let ?ms = "middlewares s"
  let ?sc = "logged (concat (map (mw_built P) (rev ?ms))) s"
  have "returns (\<lambda>n. reduceRight P n (rev ?ms) [] k d s) (Inr (rev (rev ?ms) @ []), ?sc)"
    by (rule reduceRight_through[where ev = ?ev]) (use assms(1) in simp)
  then obtain N1 where N1: "\<And>n. N1 \<le> n \<Longrightarrow>
      reduceRight P n (rev ?ms) [] k d s = Some (Inr ?ms, ?sc)"
    by (auto simp: returns_def)
  have "returns (\<lambda>n. composed P n ?ms k ?ev ?sc)
          (r, settled r (concat (map (mw_after P ?ev) (rev ?ms))) s')"
    by (rule composed_through) (use assms in \<open>simp_all add: chain_in_def\<close>)
  then obtain N2 where N2: "\<And>n. N2 \<le> n \<Longrightarrow> composed P n ?ms k ?ev ?sc
      = Some (r, settled r (chain_out P ?ev ?ms) s')"
    by (auto simp: returns_def chain_out_def)
  show ?thesis
  proof (rule returnsI[of "Suc (max N1 N2)"])
    fix n assume "Suc (max N1 N2) \<le> n"
    then obtain m where n: "n = Suc m" and m1: "N1 \<le> m" and m2: "N2 \<le> m"
      by (cases n) auto
    show "emit_try P n k d s = Some (r, settled r (chain_out P ?ev ?ms) s')"
      using n N1[OF m1] N2[OF m2] by simp
  qed
qed

lemma calls_chain [simp]:
  "calls (mw_built P m) = []"
  "calls (mw_before P ev m) = []"
  "calls (mw_after P ev m) = []"
  by (cases m; simp)+

lemma calls_concat_Nil: "(\<And>x. x \<in> set xs \<Longrightarrow> calls (f x) = []) \<Longrightarrow> calls (concat (map f xs)) = []"
  by (induction xs) simp_all

lemma calls_chain_in [simp]: "calls (chain_in P ev ms) = []"
  by (simp add: chain_in_def calls_concat_Nil)

lemma calls_chain_out [simp]: "calls (chain_out P ev ms) = []"
  by (simp add: chain_out_def calls_concat_Nil)

lemma emit_of_try_normal:
  assumes "returns (\<lambda>n. emit_try P n k d s) (Normal, s')"
  shows "returns (\<lambda>n. emit P n k d s) (Normal, s')"
proof -
  from assms obtain N where N: "\<And>n. N \<le> n \<Longrightarrow> emit_try P n k d s = Some (Normal, s')"
    by (auto simp: returns_def)
  show ?thesis
  proof (rule returnsI[of "Suc N"])
    fix n assume "Suc N \<le> n"
    then obtain m where "n = Suc m" "N \<le> m" by (cases n) auto
    then show "emit P n k d s = Some (Normal, s')" using N by simp
  qed
qed

lemma emit_of_try_thrown:
  assumes "returns (\<lambda>n. emit_try P n k d s) (Thrown e, s1)"
    and "returns (\<lambda>n. handleError P n e \<lparr>ev_name = k, ev_data = d\<rparr> EMIT s1) (hr, s2)"
  shows "returns (\<lambda>n. emit P n k d s)
           (case hr of Inl e' \<Rightarrow> Thrown e' | Inr b \<Rightarrow> Normal, s2)"
proof -
  from assms(1) obtain N where N: "\<And>n. N \<le> n \<Longrightarrow> emit_try P n k d s = Some (Thrown e, s1)"
    by (auto simp: returns_def)
  from assms(2) obtain M where M: "\<And>n. M \<le> n \<Longrightarrow>
      handleError P n e \<lparr>ev_name = k, ev_data = d\<rparr> EMIT s1 = Some (hr, s2)"
    by (auto simp: returns_def)
  show ?thesis
  proof (rule returnsI[of "Suc (max N M)"])
    fix n assume "Suc (max N M) \<le> n"
    then obtain m where n: "n = Suc m" and m1: "N \<le> m" and m2: "M \<le> m" by (cases n) auto
    show "emit P n k d s = Some (case hr of Inl e' \<Rightarrow> Thrown e' | Inr b \<Rightarrow> Normal, s2)"
      using n N[OF m1] M[OF m2] by (cases hr) (simp_all del: handleError.simps)
  qed
qed

lemma emit_through_terminal:
  assumes tr: "\<forall>m\<in>set (middlewares s). transparent P \<lparr>ev_name = k, ev_data = d\<rparr> m"
    and reg: "listeners s k = Some a"
    and t: "returns (\<lambda>n. terminal P n a 0 \<lparr>ev_name = k, ev_data = d\<rparr>
                 (logged (chain_in P \<lparr>ev_name = k, ev_data = d\<rparr> (middlewares s)) s)) (r, s')"
  shows "returns (\<lambda>n. emit_try P n k d s)
           (r, settled r (chain_out P \<lparr>ev_name = k, ev_data = d\<rparr> (middlewares s)) s')"
  by (rule emit_try_through[OF tr]) (rule composed_terminal_returns[OF _ t], simp add: reg)

lemma emit_walk_through:
  fixes k d defines "ev \<equiv> \<lparr>ev_name = k, ev_data = d\<rparr>"
  assumes tr: "\<forall>m\<in>set (middlewares s). transparent P ev m"
    and reg: "listeners s k = Some a"
    and wk: "walkable P (onListenerError (errorPolicy s)) ev (members (heap s a))"
    and w: "walk P (onListenerError (errorPolicy s)) ev (members (heap s a)) = (r, t)"
    and hs: "\<And>e. r = Thrown e \<Longrightarrow> handler_simple P (onEmitError (errorPolicy s)) e ev"
  shows "returns (\<lambda>n. emit P n k d s)
           (case r of
              Normal \<Rightarrow>
                (Normal, logged (chain_in P ev (middlewares s) @ t
                                   @ chain_out P ev (middlewares s)) s)
            | Thrown e \<Rightarrow>
                (case handled P (onEmitError (errorPolicy s)) EMIT e ev of
                   (Inl e', th) \<Rightarrow> (Thrown e', logged (chain_in P ev (middlewares s) @ t @ th) s)
                 | (Inr b, th) \<Rightarrow> (Normal, logged (chain_in P ev (middlewares s) @ t @ th) s)))"
proof -
  let ?cin = "chain_in P ev (middlewares s)"
  let ?cout = "chain_out P ev (middlewares s)"
  let ?sin = "logged ?cin s"
  have "returns (\<lambda>n. terminal P n a 0 ev ?sin) (r, logged t ?sin)"
    using terminal_walk[of ?sin a "heap s a" P "onListenerError (errorPolicy s)" ev 0] wk w
    by simp
  then have et: "returns (\<lambda>n. emit_try P n k d s) (r, settled r ?cout (logged t ?sin))"
    unfolding ev_def by (rule emit_through_terminal[OF tr[unfolded ev_def] reg])
  show ?thesis
  proof (cases r)
    case Normal
    with et have "returns (\<lambda>n. emit_try P n k d s) (Normal, logged ?cout (logged t ?sin))"
      by simp
    then have "returns (\<lambda>n. emit P n k d s) (Normal, logged ?cout (logged t ?sin))"
      by (rule emit_of_try_normal)
    with Normal show ?thesis by simp
  next
    case (Thrown e)
    obtain hr th where H: "handled P (onEmitError (errorPolicy s)) EMIT e ev = (hr, th)"
      by (cases "handled P (onEmitError (errorPolicy s)) EMIT e ev")
    from et Thrown have et': "returns (\<lambda>n. emit_try P n k d s) (Thrown e, logged t ?sin)"
      by simp
    have he: "returns (\<lambda>n. handleError P n e ev EMIT (logged t ?sin))
                (hr, logged th (logged t ?sin))"
      using handleError_simple[of "logged t ?sin" EMIT "onEmitError (errorPolicy s)" P e ev]
        hs[OF Thrown] H by simp
    have "returns (\<lambda>n. emit P n k d s)
            (case hr of Inl e' \<Rightarrow> Thrown e' | Inr b \<Rightarrow> Normal, logged th (logged t ?sin))"
      using et' he unfolding ev_def by (rule emit_of_try_thrown)
    with Thrown H show ?thesis by (cases hr) simp_all
  qed
qed

section \<open>The sample brokers\<close>

lemma three_broker_fields:
  "errorPolicy three_broker = escalate_policy"
  "listeners three_broker ''x'' = Some 0"
  "heap three_broker 0 = [Some (Fn 1), Some (Fn 0), Some (Fn 2)]"
  "middlewares three_broker = []"
  by (simp_all add: three_broker_def escalate_policy_def sample_defs)

lemma continue_broker_fields:
  "errorPolicy continue_broker = DEFAULT_ERROR_POLICY"
  "listeners continue_broker ''x'' = Some 0"
  "heap continue_broker 0 = [Some (Fn 0), Some (Fn 1)]"
  "middlewares continue_broker = []"
  by (simp_all add: continue_broker_def sample_defs)

lemma quiet_broker_fields:
  "errorPolicy quiet_broker = DEFAULT_ERROR_POLICY"
  "listeners quiet_broker ''x'' = Some 0"
  "heap quiet_broker 0 = [Some (Fn 1), Some (Fn 2)]"
  "middlewares quiet_broker = []"
  by (simp_all add: quiet_broker_def sample_defs)

lemma listening_broker_fields:
  "errorPolicy listening_broker = DEFAULT_ERROR_POLICY"
  "listeners listening_broker ''x'' = Some 0"
  "heap listening_broker 0 = [Some (Fn 1)]"
  "middlewares listening_broker = []"
  by (simp_all add: listening_broker_def sample_defs)

lemma members_literal:
  "members (Some x # xs) = x # members xs"
  "members (None # xs) = members xs"
  by (simp_all add: members_def)

lemma mutating_broker_fields:
  "listeners adder_broker ''x'' = Some 0"
  "heap adder_broker 0 = [Some (Fn 3)]"
  "middlewares adder_broker = []"
  "trace adder_broker = []"
  "listeners remover_broker ''x'' = Some 0"
  "heap remover_broker 0 = [Some (Fn 4), Some (Fn 1)]"
  "middlewares remover_broker = []"
  "trace remover_broker = []"
  by (simp_all add: adder_broker_def remover_broker_def sample_defs)

lemma relay_stop_broker_fields:
  "errorPolicy relay_stop_broker = escalate_policy"
  "listeners relay_stop_broker ''x'' = Some 0"
  "heap relay_stop_broker 0 = [Some (Fn 2), Some (Fn 0), Some (Fn 4)]"
  "middlewares relay_stop_broker = [LoggerMw 0, Mw 3]"
  by (simp_all add: relay_stop_broker_def relay_broker_with_def escalate_policy_def sample_defs)

lemma relay_continue_broker_fields:
  "errorPolicy relay_continue_broker = DEFAULT_ERROR_POLICY"
  "listeners relay_continue_broker ''x'' = Some 0"
  "heap relay_continue_broker 0 = [Some (Fn 0), Some (Fn 2)]"
  "middlewares relay_continue_broker = [LoggerMw 0, Mw 3]"
  by (simp_all add: relay_continue_broker_def relay_broker_with_def sample_defs)

lemma relay_quiet_broker_fields:
  "listeners relay_quiet_broker ''x'' = Some 0"
  "heap relay_quiet_broker 0 = [Some (Fn 2), Some (Fn 4)]"
  "middlewares relay_quiet_broker = [LoggerMw 0, Mw 3]"
  "trace relay_quiet_broker = []"
  by (simp_all add: relay_quiet_broker_def relay_broker_with_def sample_defs)

lemma resubscribing_broker_fields:
  "listeners resubscribing_broker ''x'' = Some 0"
  "heap resubscribing_broker 0 = [Some (Fn 5)]"
  "middlewares resubscribing_broker = [LoggerMw 0, Mw 3]"
  "trace resubscribing_broker = []"
  by (simp_all add: resubscribing_broker_def relay_broker_with_def sample_defs)

lemma escalate_emit:
  "emit sample_program 7 ''x'' 42 escalate_broker
     = Some (Thrown (Error ''boom''), logged [Called (Fn 0) 42] escalate_broker)"
  by (simp add: eval_nat_numeral escalate_broker_fields escalate_policy_def sample_program_def)

lemma escalate_reachable: "reachable sample_program escalate_broker"
  unfolding escalate_broker_def broker_with_def
  by (intro reachable.after_on reachable.created)

section \<open>The registry never holds an empty set\<close>

lemma set_size_add: "0 < set_size (set_add xs v)"
  by (auto simp: set_size_def set_add_def filter_empty_conv)

lemma registry_inv_on: "registry_inv s \<Longrightarrow> registry_inv (on k f s)"
  unfolding registry_inv_def on_def Let_def emitted_def
  by (auto simp: set_size_add split: option.splits if_splits) (meson less_SucI)+

lemma registry_inv_next_fn: "registry_inv (s\<lparr>next_fn := x\<rparr>) = registry_inv s"
  by (simp add: registry_inv_def)

lemma registry_inv_off: "registry_inv s \<Longrightarrow> registry_inv (off k f s)"
  unfolding registry_inv_def off_def Let_def
  by (auto split: option.splits if_splits)

lemma preserved_registry_inv: "preserved registry_inv"
  unfolding preserved_def
  by (intro conjI allI impI)
     (simp_all add: registry_inv_on registry_inv_off once_def registry_inv_next_fn,
      simp_all add: registry_inv_def emitted_def clear_def use_def remove_mw_def)

lemma registry_inv_created: "registry_inv (fst (createEventBroker opts lg))"
  by (simp add: registry_inv_def createEventBroker_def constructor_def Let_def)

lemma reachable_registry_inv: "reachable P s \<Longrightarrow> registry_inv s"
proof (induction rule: reachable.induct)
  case (after_emit s n k d r s')
  then show ?case using emit_keeps[OF preserved_registry_inv] by blast
qed (use preserved_registry_inv registry_inv_created in \<open>auto simp: preserved_def\<close>)

text \<open>
  C8. After every completed public operation (the constructor, \<open>on\<close>, \<open>once\<close>,
  \<open>off\<close>, \<open>clear\<close>, \<open>use\<close> and its remover, \<open>emit\<close> whether it returns or throws, and
  all of these called from listeners, handlers and middlewares during an emission), every
  event name that is a key of the listener registry maps to a set that is not empty; and
  \<open>off\<close> deletes the entry when the set becomes empty.
\<close>

theorem registry_sets_never_empty:
  "(reachable P s \<longrightarrow> nonempty_registry s)
   \<and> (listeners s k = Some a \<and> set_size (set_delete (heap s a) f) = 0
        \<longrightarrow> listeners (off k f s) k = None)"
proof (intro conjI impI)
  assume "reachable P s"
  then have "registry_inv s" by (rule reachable_registry_inv)
  then show "nonempty_registry s" by (simp add: registry_inv_def nonempty_registry_def)
next
  assume "listeners s k = Some a \<and> set_size (set_delete (heap s a) f) = 0"
  then show "listeners (off k f s) k = None" by (simp add: off_def)
qed

theorem registry_sets_witness:
  "nonempty_registry (off ''x'' (Fn 0) (logged [Called (Fn 0) 42] escalate_broker))
   \<and> listeners (off ''x'' (Fn 0) (logged [Called (Fn 0) 42] escalate_broker)) ''x'' = Some 0
   \<and> listeners (off ''x'' (Fn 1) (off ''x'' (Fn 0) (logged [Called (Fn 0) 42] escalate_broker)))
        ''x'' = None"
  using registry_sets_never_empty
          [where P = sample_program
             and s = "off ''x'' (Fn 0) (logged [Called (Fn 0) 42] escalate_broker)"
             and k = "''x''" and a = 0 and f = "Fn 1"]
        reachable.after_off[OF reachable.after_emit[OF escalate_reachable escalate_emit],
          of "''x''" "Fn 0"]
  by (simp add: off_def escalate_broker_fields set_delete_def set_size_def)

section \<open>The listener loop\<close>

text \<open>
  C2, as amended. With \<open>onListenerError: "stop"\<close>: when a listener of the set throws in
  the listener loop, the loop ends there and throws that error, in the state that the
  listener left, so no later listener is called by that loop. If moreover \<open>onEmitError\<close>
  is "stop", every registered middleware passes the event through (\<open>transparent\<close>), the
  listeners of \<open>k\<close> before \<open>Fn j\<close> only log and return, and \<open>Fn j\<close> only logs before it
  throws \<open>e\<close>, then \<open>emit k d\<close> ends by throwing \<open>e\<close> to its caller, and the listeners
  called during the emission are those before \<open>Fn j\<close> and \<open>Fn j\<close>, in iteration order,
  each with \<open>d\<close>; none of the listeners after it is called, whatever they are.
\<close>

theorem stop_escalates_and_skips_later_listeners:
  "(onListenerError (errorPolicy s0) = Some STOP \<and> i < length (heap s0 a0)
       \<and> heap s0 a0 ! i = Some f
       \<and> call_listener P (Suc (Suc n)) f (ev_data ev) s0 = Some (Thrown e0, s1)
     \<longrightarrow> terminal P (Suc (Suc (Suc n))) a0 i ev s0 = Some (Thrown e0, s1))
   \<and> (onListenerError (errorPolicy s) = Some STOP \<and> onEmitError (errorPolicy s) = Some STOP
       \<and> (\<forall>m\<in>set (middlewares s). transparent P \<lparr>ev_name = k, ev_data = d\<rparr> m)
       \<and> listeners s k = Some a
       \<and> members (heap s a) = pre @ Fn j # post
       \<and> (\<forall>g\<in>set pre. quiet P d g)
       \<and> listener_code P j d = map Log ms @ Throw e # rest
     \<longrightarrow> (\<exists>t. returns (\<lambda>n. emit P n k d s) (Thrown e, logged t s)
              \<and> calls t = map (\<lambda>g. (g, d)) (pre @ [Fn j])))"
proof (intro conjI impI)
  assume h: "onListenerError (errorPolicy s0) = Some STOP \<and> i < length (heap s0 a0)
       \<and> heap s0 a0 ! i = Some f
       \<and> call_listener P (Suc (Suc n)) f (ev_data ev) s0 = Some (Thrown e0, s1)"
  then have "errorPolicy s1 = errorPolicy s0" by (blast dest: call_listener_errorPolicy)
  with h show "terminal P (Suc (Suc (Suc n))) a0 i ev s0 = Some (Thrown e0, s1)"
    by (simp del: call_listener.simps)
next
  assume h: "onListenerError (errorPolicy s) = Some STOP \<and> onEmitError (errorPolicy s) = Some STOP
       \<and> (\<forall>m\<in>set (middlewares s). transparent P \<lparr>ev_name = k, ev_data = d\<rparr> m)
       \<and> listeners s k = Some a
       \<and> members (heap s a) = pre @ Fn j # post
       \<and> (\<forall>g\<in>set pre. quiet P d g)
       \<and> listener_code P j d = map Log ms @ Throw e # rest"
  let ?ev = "\<lparr>ev_name = k, ev_data = d\<rparr>"
  let ?pol = "onListenerError (errorPolicy s)"
  let ?cin = "chain_in P ?ev (middlewares s)"
  let ?t = "snd (walk P ?pol ?ev pre) @ Called (Fn j) d # map Logged ms"
  from h have tr: "\<forall>m\<in>set (middlewares s). transparent P ?ev m"
    and reg: "listeners s k = Some a" by simp_all
  from h have q: "\<forall>g\<in>set pre. quiet P (ev_data ?ev) g" by simp
  note wq = walk_quiet_append[OF q, of ?pol "Fn j # post"]
  have w: "walk P ?pol ?ev (members (heap s a)) = (Thrown e, ?t)"
    using wq h by (simp add: handled_def)
  have wk: "walkable P ?pol ?ev (members (heap s a))"
    using wq h by (simp add: handled_def handler_simple_def)
  have hs: "\<And>e'. Thrown e = Thrown e' \<Longrightarrow> handler_simple P (onEmitError (errorPolicy s)) e' ?ev"
    using h by (simp add: handler_simple_def)
  have "returns (\<lambda>n. emit P n k d s) (Thrown e, logged (?cin @ ?t) s)"
    using emit_walk_through[OF tr reg wk w hs] h by (simp add: handled_def)
  moreover have "calls (?cin @ ?t) = map (\<lambda>g. (g, d)) (pre @ [Fn j])"
    using wq by simp
  ultimately show "\<exists>t. returns (\<lambda>n. emit P n k d s) (Thrown e, logged t s)
              \<and> calls t = map (\<lambda>g. (g, d)) (pre @ [Fn j])" by blast
qed

theorem stop_escalates_witness:
  "terminal layered_program 3 0 1 \<lparr>ev_name = ''x'', ev_data = 42\<rparr> relay_stop_broker
       = Some (Thrown (Error ''boom''), logged [Called (Fn 0) 42] relay_stop_broker)
   \<and> (\<exists>t. returns (\<lambda>n. emit layered_program n ''x'' 42 relay_stop_broker)
          (Thrown (Error ''boom''), logged t relay_stop_broker)
        \<and> calls t = [(Fn 2, 42), (Fn 0, 42)])
   \<and> emit layered_program 12 ''x'' 42 relay_stop_broker
       = Some (Thrown (Error ''boom''),
               logged [LoggerGroup ''x'' 42, Logged ''before'', Called (Fn 2) 42, Logged ''ok'',
                       Called (Fn 0) 42] relay_stop_broker)"
  using stop_escalates_and_skips_later_listeners
          [where ?s0.0 = relay_stop_broker and ?a0.0 = 0 and i = 1 and f = "Fn 0"
             and P = layered_program and n = 0 and ev = "\<lparr>ev_name = ''x'', ev_data = 42\<rparr>"
             and ?e0.0 = "Error ''boom''"
             and ?s1.0 = "logged [Called (Fn 0) 42] relay_stop_broker"
             and s = relay_stop_broker and k = "''x''" and a = 0 and pre = "[Fn 2]" and j = 0
             and post = "[Fn 4]" and d = 42 and ms = "[]"
             and e = "Error ''boom''" and rest = "[]"]
  by (simp add: members_literal relay_stop_broker_fields escalate_policy_def layered_program_def
      quiet_body_def eval_nat_numeral)

text \<open>
  The claim as it was stated fails: a middleware layer that catches what \<open>next\<close> throws
  stops the error of the listener on its way out. With both slots "stop" the first
  listener throws, the layer catches the error that the listener loop throws, and \<open>emit\<close>
  returns normally.
\<close>

theorem caught_listener_error_does_not_leave_emit:
  "onListenerError (errorPolicy catching_broker) = Some STOP
   \<and> onEmitError (errorPolicy catching_broker) = Some STOP
   \<and> members (heap catching_broker 0) = [Fn 0, Fn 2]
   \<and> call_listener layered_program 2 (Fn 0) 42 catching_broker
       = Some (Thrown (Error ''boom''), logged [Called (Fn 0) 42] catching_broker)
   \<and> emit layered_program 12 ''x'' 42 catching_broker
       = Some (Normal,
               logged [Called (Fn 0) 42, Logged ''caught'', Logged ''after''] catching_broker)"
  by (simp add: members_literal catching_broker_def escalate_policy_def layered_program_def
      logged_def sample_defs eval_nat_numeral)

text \<open>
  C3, as amended. With \<open>onListenerError: "continue"\<close>: when a listener of the set throws
  in the listener loop, the loop logs the error with \<open>console.error\<close> and goes on at the
  next position of the set. With two listeners for the same event of which the first only
  logs before it throws \<open>e\<close> and the second only logs before it returns or throws, and
  every registered middleware passing the event through (\<open>transparent\<close>): one \<open>emit\<close>
  calls the first listener, logs its error, then calls the second listener with the
  emitted data, calls no other listener, and returns normally.
\<close>

theorem continue_isolates_listener_errors:
  "(onListenerError (errorPolicy s0) = Some CONTINUE \<and> i0 < length (heap s0 a0)
       \<and> heap s0 a0 ! i0 = Some f
       \<and> call_listener P (Suc (Suc n)) f (ev_data ev) s0 = Some (Thrown e0, s1)
     \<longrightarrow> terminal P (Suc (Suc (Suc n))) a0 i0 ev s0
           = terminal P (Suc (Suc n)) a0 (Suc i0) ev
               (emitted (ConsoleError LISTENER (ev_name ev) e0) s1))
   \<and> (onListenerError (errorPolicy s) = Some CONTINUE
       \<and> (\<forall>m\<in>set (middlewares s). transparent P \<lparr>ev_name = k, ev_data = d\<rparr> m)
       \<and> listeners s k = Some a
       \<and> members (heap s a) = [Fn i, Fn j]
       \<and> listener_code P i d = map Log ms @ Throw e # rest
       \<and> simple (listener_code P j d)
     \<longrightarrow> (\<exists>t0 t1. returns (\<lambda>n. emit P n k d s)
               (Normal,
                logged (t0 @ Called (Fn i) d # map Logged ms
                          @ ConsoleError LISTENER k e # Called (Fn j) d # t1) s)
             \<and> calls t0 = [] \<and> calls t1 = []))"
proof (intro conjI impI)
  assume h: "onListenerError (errorPolicy s0) = Some CONTINUE \<and> i0 < length (heap s0 a0)
       \<and> heap s0 a0 ! i0 = Some f
       \<and> call_listener P (Suc (Suc n)) f (ev_data ev) s0 = Some (Thrown e0, s1)"
  then have "errorPolicy s1 = errorPolicy s0" by (blast dest: call_listener_errorPolicy)
  with h show "terminal P (Suc (Suc (Suc n))) a0 i0 ev s0
           = terminal P (Suc (Suc n)) a0 (Suc i0) ev
               (emitted (ConsoleError LISTENER (ev_name ev) e0) s1)"
    by (simp del: call_listener.simps terminal.simps
          add: terminal.simps(2)[of P "Suc (Suc n)" a0 i0])
next
  assume h: "onListenerError (errorPolicy s) = Some CONTINUE
       \<and> (\<forall>m\<in>set (middlewares s). transparent P \<lparr>ev_name = k, ev_data = d\<rparr> m)
       \<and> listeners s k = Some a
       \<and> members (heap s a) = [Fn i, Fn j]
       \<and> listener_code P i d = map Log ms @ Throw e # rest
       \<and> simple (listener_code P j d)"
  let ?ev = "\<lparr>ev_name = k, ev_data = d\<rparr>"
  let ?pol = "onListenerError (errorPolicy s)"
  let ?cin = "chain_in P ?ev (middlewares s)"
  let ?cout = "chain_out P ?ev (middlewares s)"
  from h have tr: "\<forall>m\<in>set (middlewares s). transparent P ?ev m"
    and reg: "listeners s k = Some a" by simp_all
  obtain r t where w: "walk P ?pol ?ev (members (heap s a)) = (r, t)"
    by (cases "walk P ?pol ?ev (members (heap s a))")
  have wk: "walkable P ?pol ?ev (members (heap s a))"
    using h by (simp add: handled_def handler_simple_def split: option.splits)
  from w h have r: "r = Normal"
    and t: "\<exists>t'. t = Called (Fn i) d # map Logged ms
                     @ ConsoleError LISTENER k e # Called (Fn j) d # t' \<and> calls t' = []"
    by (auto simp: handled_def Let_def split: option.splits prod.splits)
  from t obtain t' where t': "t = Called (Fn i) d # map Logged ms
                     @ ConsoleError LISTENER k e # Called (Fn j) d # t'"
    and c: "calls t' = []" by blast
  have "returns (\<lambda>n. emit P n k d s) (Normal, logged (?cin @ t @ ?cout) s)"
    using emit_walk_through[OF tr reg wk w] r by simp
  then have "returns (\<lambda>n. emit P n k d s)
               (Normal,
                logged (?cin @ Called (Fn i) d # map Logged ms
                          @ ConsoleError LISTENER k e # Called (Fn j) d # (t' @ ?cout)) s)"
    by (simp add: t')
  moreover have "calls ?cin = []" "calls (t' @ ?cout) = []" using c by simp_all
  ultimately show "\<exists>t0 t1. returns (\<lambda>n. emit P n k d s)
               (Normal,
                logged (t0 @ Called (Fn i) d # map Logged ms
                          @ ConsoleError LISTENER k e # Called (Fn j) d # t1) s)
             \<and> calls t0 = [] \<and> calls t1 = []" by blast
qed

theorem continue_isolates_witness:
  "terminal layered_program 3 0 0 \<lparr>ev_name = ''x'', ev_data = 42\<rparr> relay_continue_broker
       = terminal layered_program 2 0 1 \<lparr>ev_name = ''x'', ev_data = 42\<rparr>
           (logged [Called (Fn 0) 42, ConsoleError LISTENER ''x'' (Error ''boom'')]
              relay_continue_broker)
   \<and> (\<exists>t0 t1. returns (\<lambda>n. emit layered_program n ''x'' 42 relay_continue_broker)
          (Normal,
           logged (t0 @ Called (Fn 0) 42 # ConsoleError LISTENER ''x'' (Error ''boom'')
                     # Called (Fn 2) 42 # t1) relay_continue_broker)
        \<and> calls t0 = [] \<and> calls t1 = [])
   \<and> emit layered_program 12 ''x'' 42 relay_continue_broker
       = Some (Normal,
               logged [LoggerGroup ''x'' 42, Logged ''before'', Called (Fn 0) 42,
                       ConsoleError LISTENER ''x'' (Error ''boom''), Called (Fn 2) 42,
                       Logged ''ok'', Logged ''after''] relay_continue_broker)"
  using continue_isolates_listener_errors
          [where ?s0.0 = relay_continue_broker and ?a0.0 = 0 and ?i0.0 = 0 and f = "Fn 0"
             and P = layered_program and n = 0 and ev = "\<lparr>ev_name = ''x'', ev_data = 42\<rparr>"
             and ?e0.0 = "Error ''boom''"
             and ?s1.0 = "logged [Called (Fn 0) 42] relay_continue_broker"
             and s = relay_continue_broker and k = "''x''" and a = 0 and i = 0 and j = 2
             and d = 42 and ms = "[]" and e = "Error ''boom''" and rest = "[]"]
  by (simp add: members_literal relay_continue_broker_fields DEFAULT_ERROR_POLICY_def
      layered_program_def quiet_body_def eval_nat_numeral)

text \<open>
  The claim as it was stated fails in three ways. A first listener that removes the
  second one before it throws: the second listener is not called. A middleware layer
  that calls \<open>next\<close> with other data: the second listener is called with \<open>99\<close>, not with
  the emitted \<open>42\<close>. A middleware layer that throws after \<open>next\<close> has returned, with
  \<open>onEmitError: "stop"\<close>: both listeners are called and \<open>emit\<close> throws.
\<close>

theorem second_listener_can_miss_the_emission:
  "onListenerError (errorPolicy unsubscribing_broker) = Some CONTINUE
   \<and> members (heap unsubscribing_broker 0) = [Fn 1, Fn 2]
   \<and> emit layered_program 12 ''x'' 42 unsubscribing_broker
       = Some (Normal,
               logged [Called (Fn 1) 42, ConsoleError LISTENER ''x'' (Error ''boom'')]
                 (off ''x'' (Fn 2) unsubscribing_broker))
   \<and> onListenerError (errorPolicy rewriting_broker) = Some CONTINUE
   \<and> members (heap rewriting_broker 0) = [Fn 0, Fn 2]
   \<and> emit layered_program 12 ''x'' 42 rewriting_broker
       = Some (Normal,
               logged [Called (Fn 0) 99, ConsoleError LISTENER ''x'' (Error ''boom''),
                       Called (Fn 2) 99, Logged ''ok''] rewriting_broker)
   \<and> onListenerError (errorPolicy late_broker) = Some CONTINUE
   \<and> members (heap late_broker 0) = [Fn 0, Fn 2]
   \<and> emit layered_program 12 ''x'' 42 late_broker
       = Some (Thrown (Error ''late''),
               logged [Called (Fn 0) 42, ConsoleError LISTENER ''x'' (Error ''boom''),
                       Called (Fn 2) 42, Logged ''ok''] late_broker)"
  by (simp add: members_literal unsubscribing_broker_def rewriting_broker_def late_broker_def
      late_policy_def layered_program_def logged_def sample_defs eval_nat_numeral)

section \<open>Listeners that change the registry during an emission\<close>

lemma take_drop_step:
  "i < p \<Longrightarrow> p \<le> length es \<Longrightarrow>
   take (p - i) (drop i es) = es ! i # take (p - Suc i) (drop (Suc i) es)"
proof -
  assume a: "i < p" "p \<le> length es"
  then have "drop i es = es ! i # drop (Suc i) es" by (simp add: Cons_nth_drop_Suc)
  moreover from a have "p - i = Suc (p - Suc i)" by simp
  ultimately show ?thesis by simp
qed

lemma terminal_prefix:
  assumes "heap s a = es" and "i \<le> p" and "p \<le> length es"
    and "\<forall>g\<in>set (members (take (p - i) (drop i es))). quiet P (ev_data ev) g"
    and "returns (\<lambda>n. terminal P n a p ev
                   (logged (snd (walk P pol ev (members (take (p - i) (drop i es))))) s)) R"
  shows "returns (\<lambda>n. terminal P n a i ev s) R"
  using assms
proof (induction "p - i" arbitrary: i s)
  case 0
  then show ?case by simp
next
  case (Suc x)
  then have ip: "i < p" and x: "x = p - Suc i" and i: "i < length es" by simp_all
  note td = take_drop_step[OF ip Suc.prems(3)]
  show ?case
  proof (cases "es ! i")
    case None
    have "returns (\<lambda>n. terminal P n a (Suc i) ev s) R"
      using Suc.hyps(1)[OF x Suc.prems(1) _ Suc.prems(3)] ip Suc.prems(4,5) td None
      by (simp add: members_literal)
    then show ?thesis
      by (rule returns_Suc) (simp add: Suc.prems(1) i None)
  next
    case (Some f)
    let ?rest = "members (take (p - Suc i) (drop (Suc i) es))"
    from Suc.prems(4) td Some have qf: "quiet P (ev_data ev) f"
      and qr: "\<forall>g\<in>set ?rest. quiet P (ev_data ev) g"
      by (simp_all add: members_literal)
    from qf obtain j where f: "f = Fn j" by (cases f) auto
    let ?d = "ev_data ev"
    let ?body = "listener_code P j ?d"
    let ?t = "Called (Fn j) ?d # body_obs ?body"
    let ?s1 = "logged ?t s"
    from qf f have sb: "simple ?body" and be: "body_err ?body = None" by simp_all
    have call: "\<And>n. length ?body + 2 \<le> n \<Longrightarrow>
        call_listener P n (Fn j) ?d s = Some (Normal, ?s1)"
      using call_listener_simple[OF sb] be by (simp add: outcome_of_def)
    have "returns (\<lambda>n. terminal P n a p ev (logged (snd (walk P pol ev ?rest)) ?s1)) R"
      using Suc.prems(5) td Some f be by (simp add: members_literal split: prod.splits)
    then have "returns (\<lambda>n. terminal P n a (Suc i) ev ?s1) R"
      using Suc.hyps(1)[OF x, of ?s1] Suc.prems(1,3) ip qr by simp
    then obtain N where N: "\<And>n. N \<le> n \<Longrightarrow> terminal P n a (Suc i) ev ?s1 = Some R"
      by (auto simp: returns_def)
    show ?thesis
    proof (rule returnsI[of "Suc (max N (length ?body + 2))"])
      fix n assume "Suc (max N (length ?body + 2)) \<le> n"
      then obtain m where n: "n = Suc m" and m1: "N \<le> m" and m2: "length ?body + 2 \<le> m"
        by (cases n) auto
      show "terminal P n a i ev s = Some R"
        using n Suc.prems(1) i Some f call[OF m2] N[OF m1] by simp
    qed
  qed
qed

lemma on_heap: "listeners s k = Some a \<Longrightarrow> heap (on k f s) a = set_add (heap s a) f"
  by (simp add: on_def Let_def emitted_def)

lemma off_heap: "listeners s k = Some a \<Longrightarrow> heap (off k f s) a = set_delete (heap s a) f"
  by (simp add: off_def Let_def)

lemma exec_script:
  "list_all scripted b \<Longrightarrow> length b < n \<Longrightarrow> exec P n nxt b s = Some (Normal, run_ops b s)"
proof (induction b arbitrary: n s)
  case Nil
  then show ?case by (cases n) (simp_all add: run_ops_def)
next
  case (Cons c b)
  then obtain m where n: "n = Suc m" and m: "length b < m" by (cases n) auto
  from Cons.prems have sc: "scripted c" and sb: "list_all scripted b" by simp_all
  from Cons.IH[OF sb m] have ih: "\<And>s. exec P m nxt b s = Some (Normal, run_ops b s)" .
  from sc show ?case unfolding n
    by (cases c) (simp_all add: ih run_ops_def)
qed

lemma exec_script_result:
  "list_all scripted b \<Longrightarrow> exec P n nxt b s = Some r \<Longrightarrow> r = (Normal, run_ops b s)"
proof (induction b arbitrary: n s)
  case Nil
  then show ?case by (cases n) (simp_all add: run_ops_def)
next
  case (Cons c b)
  from Cons.prems(2) obtain m where n: "n = Suc m" by (cases n) auto
  from Cons.prems(1) have sc: "scripted c" and sb: "list_all scripted b" by simp_all
  from sc Cons.prems(2) have "exec P m nxt b (run_op c s) = Some r"
    unfolding n by (cases c) simp_all
  from Cons.IH[OF sb this] show ?case by (simp add: run_ops_def)
qed

lemma untraced_logged [simp]: "untraced (logged t s) = untraced s"
  by (simp add: untraced_def logged_def)

lemma untraced_fields [simp]:
  "heap (untraced s) = heap s"
  "errorPolicy (untraced s) = errorPolicy s"
  by (simp_all add: untraced_def)

lemma untraced_run_op: "untraced (run_op c (untraced s)) = untraced (run_op c s)"
  by (cases c)
     (auto simp: untraced_def on_def once_def off_def clear_def use_def remove_mw_def
        emitted_def logged_def Let_def split: option.splits)

lemma untraced_run_ops: "untraced (run_ops b (untraced s)) = untraced (run_ops b s)"
  unfolding run_ops_def
proof (induction b arbitrary: s)
  case Nil
  then show ?case by (simp add: untraced_def)
next
  case (Cons c b)
  have "untraced (fold run_op b (run_op c (untraced s)))
          = untraced (fold run_op b (untraced (run_op c (untraced s))))"
    using Cons.IH[of "run_op c (untraced s)"] by simp
  also have "\<dots> = untraced (fold run_op b (run_op c s))"
    using Cons.IH[of "run_op c s"] by (simp add: untraced_run_op)
  finally show ?case by simp
qed

lemma run_ops_frame:
  "errorPolicy (run_ops b s) = errorPolicy s"
  "heap (run_ops b (logged t s)) = heap (run_ops b s)"
  "\<exists>w. trace (run_ops b s) = trace s @ w \<and> calls w = []"
proof -
  show "errorPolicy (run_ops b s) = errorPolicy s"
    unfolding run_ops_def
  proof (induction b arbitrary: s)
    case (Cons c b)
    have "errorPolicy (run_op c s) = errorPolicy s"
      by (cases c)
         (simp_all add: on_def once_def off_def clear_def use_def remove_mw_def
            logged_def Let_def split: option.splits)
    with Cons show ?case by simp
  qed simp
  have "heap (run_ops b (logged t s)) = heap (untraced (run_ops b (logged t s)))" by simp
  also have "\<dots> = heap (untraced (run_ops b (untraced (logged t s))))"
    by (simp only: untraced_run_ops)
  also have "\<dots> = heap (untraced (run_ops b s))"
    by (simp add: untraced_run_ops)
  finally show "heap (run_ops b (logged t s)) = heap (run_ops b s)" by simp
  show "\<exists>w. trace (run_ops b s) = trace s @ w \<and> calls w = []"
    unfolding run_ops_def
  proof (induction b arbitrary: s)
    case Nil
    then show ?case by simp
  next
    case (Cons c b)
    have "\<exists>w. trace (run_op c s) = trace s @ w \<and> calls w = []"
      by (cases c)
         (auto simp: on_def once_def off_def clear_def use_def remove_mw_def
            logged_def Let_def split: option.splits)
    then obtain w1 where w1: "trace (run_op c s) = trace s @ w1" "calls w1 = []" by blast
    from Cons[of "run_op c s"] obtain w2 where
      w2: "trace (fold run_op b (run_op c s)) = trace (run_op c s) @ w2" "calls w2 = []" by blast
    from w1 w2 have "trace (fold run_op (c # b) s) = trace s @ (w1 @ w2) \<and> calls (w1 @ w2) = []"
      by simp
    then show ?case by blast
  qed
qed

lemma quiet_emission_through:
  assumes "\<forall>m\<in>set (middlewares s). transparent P \<lparr>ev_name = k, ev_data = d\<rparr> m"
    and "listeners s k = Some a"
    and "\<forall>g\<in>set (members (heap s a)). quiet P d g"
  shows "\<exists>t. returns (\<lambda>n. emit P n k d s) (Normal, logged t s)
             \<and> calls t = map (\<lambda>g. (g, d)) (members (heap s a))"
proof -
  let ?ev = "\<lparr>ev_name = k, ev_data = d\<rparr>"
  let ?pol = "onListenerError (errorPolicy s)"
  let ?fs = "members (heap s a)"
  from assms(3) have q: "\<forall>g\<in>set ?fs. quiet P (ev_data ?ev) g" by simp
  note wq = walk_quiet_append[OF q, of ?pol "[]"]
  have w: "walk P ?pol ?ev ?fs = (Normal, snd (walk P ?pol ?ev ?fs))"
    using wq by (simp add: prod_eq_iff)
  have wk: "walkable P ?pol ?ev ?fs" using wq by simp
  have "returns (\<lambda>n. emit P n k d s)
          (Normal, logged (chain_in P ?ev (middlewares s) @ snd (walk P ?pol ?ev ?fs)
                             @ chain_out P ?ev (middlewares s)) s)"
    using emit_walk_through[OF assms(1,2) wk w] by simp
  with wq show ?thesis by auto
qed

lemma live_step_through:
  assumes tr: "\<forall>m\<in>set (middlewares s). transparent P \<lparr>ev_name = k, ev_data = d\<rparr> m"
    and reg: "listeners s k = Some a"
    and hp: "heap s a = e1 @ Some (Fn i) # e2"
    and q1: "\<forall>g\<in>set (members e1). quiet P d g"
    and body: "\<And>s0 n. B \<le> n \<Longrightarrow> exec P n None (listener_code P i d) s0 = Some (Normal, op s0)"
    and fr1: "\<And>s0. errorPolicy (op s0) = errorPolicy s0"
    and fr2: "\<And>t s0. heap (op (logged t s0)) = heap (op s0)"
    and fr3: "\<And>s0. \<exists>w. trace (op s0) = trace s0 @ w \<and> calls w = []"
    and q2: "\<forall>g\<in>set (members (drop (Suc (length e1)) (heap (op s) a))). quiet P d g"
  shows "\<exists>s'. returns (\<lambda>n. emit P n k d s) (Normal, s')
           \<and> calls (drop (length (trace s)) (trace s'))
               = map (\<lambda>f. (f, d)) (members e1 @ Fn i # members (drop (Suc (length e1)) (heap (op s) a)))"
proof -
  let ?ev = "\<lparr>ev_name = k, ev_data = d\<rparr>"
  let ?pol = "onListenerError (errorPolicy s)"
  let ?p = "length e1"
  let ?es = "heap s a"
  let ?cin = "chain_in P ?ev (middlewares s)"
  let ?cout = "chain_out P ?ev (middlewares s)"
  let ?s0 = "logged ?cin s"
  let ?T1 = "snd (walk P ?pol ?ev (members e1))"
  let ?s1 = "logged ?T1 ?s0"
  let ?sc = "logged [Called (Fn i) d] ?s1"
  let ?s2 = "op ?sc"
  let ?rem = "members (drop (Suc ?p) (heap (op s) a))"
  let ?T2 = "snd (walk P ?pol ?ev ?rem)"
  let ?s3 = "logged ?T2 ?s2"
  have h2: "heap ?s2 a = heap (op s) a"
    using fr2[of "?cin @ ?T1 @ [Called (Fn i) d]" s] by simp
  from q1 have q1': "\<forall>g\<in>set (members e1). quiet P (ev_data ?ev) g" by simp
  from q2 have q2': "\<forall>g\<in>set ?rem. quiet P (ev_data ?ev) g" by simp
  note w1 = walk_quiet_append[OF q1', of ?pol "[]"]
  note w2 = walk_quiet_append[OF q2', of ?pol "[]"]
  have "returns (\<lambda>n. terminal P n a (Suc ?p) ?ev ?s2)
          (fst (walk P ?pol ?ev (members (drop (Suc ?p) (heap (op s) a)))),
           logged (snd (walk P ?pol ?ev (members (drop (Suc ?p) (heap (op s) a))))) ?s2)"
    by (rule terminal_walk) (use h2 w2 fr1 in simp_all)
  then have "returns (\<lambda>n. terminal P n a (Suc ?p) ?ev ?s2) (Normal, ?s3)"
    using w2 by simp
  then obtain N where N: "\<And>n. N \<le> n \<Longrightarrow> terminal P n a (Suc ?p) ?ev ?s2 = Some (Normal, ?s3)"
    by (auto simp: returns_def)
  have at_p: "returns (\<lambda>n. terminal P n a ?p ?ev ?s1) (Normal, ?s3)"
  proof (rule returnsI[of "Suc (Suc (max N B))"])
    fix n assume "Suc (Suc (max N B)) \<le> n"
    then obtain m where n: "n = Suc (Suc m)" and m1: "N \<le> Suc m" and m2: "B \<le> m"
      by (cases n; cases "n - 1") auto
    show "terminal P n a ?p ?ev ?s1 = Some (Normal, ?s3)"
      using n hp body[OF m2, of ?sc] N[OF m1]
      by (simp del: terminal.simps(2) exec.simps add: terminal.simps(2)[of P "Suc m"])
  qed
  have "returns (\<lambda>n. terminal P n a 0 ?ev ?s0) (Normal, ?s3)"
    by (rule terminal_prefix[where p = ?p and es = ?es and pol = ?pol])
       (use hp q1' at_p in simp_all)
  then have "returns (\<lambda>n. emit_try P n k d s) (Normal, settled Normal ?cout ?s3)"
    by (rule emit_through_terminal[OF tr reg])
  then have r: "returns (\<lambda>n. emit P n k d s) (Normal, logged ?cout ?s3)"
    by (intro emit_of_try_normal) simp
  from fr3[of ?sc] obtain w where w: "trace ?s2 = trace ?sc @ w" "calls w = []" by blast
  have "calls (drop (length (trace s)) (trace (logged ?cout ?s3)))
          = map (\<lambda>f. (f, d)) (members e1 @ Fn i # ?rem)"
    using w w1 w2 by simp
  with r show ?thesis by blast
qed

lemma run_ops_single [simp]: "run_ops [c] s = run_op c s"
  by (simp add: run_ops_def)

text \<open>
  C5, as amended. The terminal stage walks the live listener set of \<open>k\<close>, the \<open>Set\<close>
  object that \<open>k\<close> maps to when the stage starts; it takes no snapshot. Let every
  registered middleware pass the event through (\<open>transparent\<close>). When every member of the
  set only logs and returns, \<open>emit k d\<close> returns and calls exactly the members of the set,
  in insertion order. When a member \<open>L\<close> of the set only logs and calls broker operations
  (\<open>scripted\<close>) and returns, the members before \<open>L\<close> only log and return, and the members
  that the \<open>Set\<close> object holds beyond the position of \<open>L\<close> after \<open>L\<close> has run (in \<open>sL\<close>,
  the state that the body of \<open>L\<close> leaves when it is run on the broker) only log and
  return, then \<open>emit k d\<close> returns and calls the members before \<open>L\<close>, then \<open>L\<close>, then those
  members, in insertion order. When \<open>L\<close> is \<open>on(k, f)\<close> they are the members beyond \<open>L\<close> of
  the set with \<open>f\<close> added, and when \<open>L\<close> is \<open>off(k, f)\<close> of the set with \<open>f\<close> deleted: a
  listener that \<open>L\<close> appends to the set is called by the same emission, a listener that
  \<open>L\<close> removes before its turn is not.
\<close>

theorem emission_walks_the_live_set:
  assumes "\<forall>m\<in>set (middlewares s). transparent P \<lparr>ev_name = k, ev_data = d\<rparr> m"
    and "listeners s k = Some a"
  shows "((\<forall>g\<in>set (members (heap s a)). quiet P d g) \<longrightarrow>
            (\<exists>t. returns (\<lambda>n. emit P n k d s) (Normal, logged t s)
               \<and> calls t = map (\<lambda>g. (g, d)) (members (heap s a))))
       \<and> (heap s a = e1 @ Some (Fn i) # e2 \<and> (\<forall>g\<in>set (members e1). quiet P d g)
            \<and> list_all scripted (listener_code P i d)
            \<and> exec P n0 None (listener_code P i d) s = Some (Normal, sL)
            \<and> (\<forall>g\<in>set (members (drop (Suc (length e1)) (heap sL a))). quiet P d g)
          \<longrightarrow>
            (\<exists>s'. returns (\<lambda>n. emit P n k d s) (Normal, s')
               \<and> calls (drop (length (trace s)) (trace s'))
                   = map (\<lambda>g. (g, d))
                       (members e1 @ Fn i # members (drop (Suc (length e1)) (heap sL a)))))
       \<and> (heap s a = e1 @ Some (Fn i) # e2 \<and> (\<forall>g\<in>set (members e1). quiet P d g)
            \<and> listener_code P i d = [CallOn k f]
            \<and> (\<forall>g\<in>set (members (drop (Suc (length e1)) (set_add (heap s a) f))). quiet P d g)
          \<longrightarrow>
            (\<exists>s'. returns (\<lambda>n. emit P n k d s) (Normal, s')
               \<and> calls (drop (length (trace s)) (trace s'))
                   = map (\<lambda>g. (g, d))
                       (members e1 @ Fn i
                          # members (drop (Suc (length e1)) (set_add (heap s a) f)))))
       \<and> (heap s a = e1 @ Some (Fn i) # e2 \<and> (\<forall>g\<in>set (members e1). quiet P d g)
            \<and> listener_code P i d = [CallOff k f]
            \<and> (\<forall>g\<in>set (members (drop (Suc (length e1)) (set_delete (heap s a) f))). quiet P d g)
          \<longrightarrow>
            (\<exists>s'. returns (\<lambda>n. emit P n k d s) (Normal, s')
               \<and> calls (drop (length (trace s)) (trace s'))
                   = map (\<lambda>g. (g, d))
                       (members e1 @ Fn i
                          # members (drop (Suc (length e1)) (set_delete (heap s a) f)))))"
proof -
  have script: "\<exists>s'. returns (\<lambda>n. emit P n k d s) (Normal, s')
               \<and> calls (drop (length (trace s)) (trace s'))
                   = map (\<lambda>g. (g, d))
                       (members e1 @ Fn i
                          # members (drop (Suc (length e1))
                                      (heap (run_ops (listener_code P i d) s) a)))"
    if h: "heap s a = e1 @ Some (Fn i) # e2" "\<forall>g\<in>set (members e1). quiet P d g"
      "list_all scripted (listener_code P i d)"
      "\<forall>g\<in>set (members (drop (Suc (length e1))
                                   (heap (run_ops (listener_code P i d) s) a))). quiet P d g"
    for e1 e2 i
    by (rule live_step_through[OF assms h(1,2), where B = "Suc (length (listener_code P i d))"
               and op = "run_ops (listener_code P i d)"])
       (use h(3,4) in \<open>simp_all add: exec_script run_ops_frame\<close>)
  show ?thesis
  proof (intro conjI impI)
    assume "\<forall>g\<in>set (members (heap s a)). quiet P d g"
    then show "\<exists>t. returns (\<lambda>n. emit P n k d s) (Normal, logged t s)
               \<and> calls t = map (\<lambda>g. (g, d)) (members (heap s a))"
      by (rule quiet_emission_through[OF assms])
  next
    assume "heap s a = e1 @ Some (Fn i) # e2 \<and> (\<forall>g\<in>set (members e1). quiet P d g)
            \<and> list_all scripted (listener_code P i d)
            \<and> exec P n0 None (listener_code P i d) s = Some (Normal, sL)
            \<and> (\<forall>g\<in>set (members (drop (Suc (length e1)) (heap sL a))). quiet P d g)"
    then show "\<exists>s'. returns (\<lambda>n. emit P n k d s) (Normal, s')
               \<and> calls (drop (length (trace s)) (trace s'))
                   = map (\<lambda>g. (g, d))
                       (members e1 @ Fn i # members (drop (Suc (length e1)) (heap sL a)))"
      using script[of e1 i e2] exec_script_result[of "listener_code P i d" P n0 None s "(Normal, sL)"]
      by simp
  next
    assume h: "heap s a = e1 @ Some (Fn i) # e2 \<and> (\<forall>g\<in>set (members e1). quiet P d g)
            \<and> listener_code P i d = [CallOn k f]
            \<and> (\<forall>g\<in>set (members (drop (Suc (length e1)) (set_add (heap s a) f))). quiet P d g)"
    then show "\<exists>s'. returns (\<lambda>n. emit P n k d s) (Normal, s')
               \<and> calls (drop (length (trace s)) (trace s'))
                   = map (\<lambda>g. (g, d))
                       (members e1 @ Fn i
                          # members (drop (Suc (length e1)) (set_add (heap s a) f)))"
      using script[of e1 i e2] by (simp add: on_heap[OF assms(2)])
  next
    assume h: "heap s a = e1 @ Some (Fn i) # e2 \<and> (\<forall>g\<in>set (members e1). quiet P d g)
            \<and> listener_code P i d = [CallOff k f]
            \<and> (\<forall>g\<in>set (members (drop (Suc (length e1)) (set_delete (heap s a) f))). quiet P d g)"
    then show "\<exists>s'. returns (\<lambda>n. emit P n k d s) (Normal, s')
               \<and> calls (drop (length (trace s)) (trace s'))
                   = map (\<lambda>g. (g, d))
                       (members e1 @ Fn i
                          # members (drop (Suc (length e1)) (set_delete (heap s a) f)))"
      using script[of e1 i e2] by (simp add: off_heap[OF assms(2)])
  qed
qed

theorem emission_walks_the_live_set_witness:
  "(\<exists>t. returns (\<lambda>n. emit layered_program n ''x'' 42 relay_quiet_broker)
          (Normal, logged t relay_quiet_broker)
        \<and> calls t = [(Fn 2, 42), (Fn 4, 42)])
   \<and> (\<exists>s'. returns (\<lambda>n. emit layered_program n ''x'' 42 resubscribing_broker) (Normal, s')
        \<and> calls (drop (length (trace resubscribing_broker)) (trace s')) = [(Fn 5, 42)])
   \<and> (\<exists>s'. returns (\<lambda>n. emit sample_program n ''x'' 42 adder_broker) (Normal, s')
        \<and> calls (drop (length (trace adder_broker)) (trace s')) = [(Fn 3, 42), (Fn 1, 42)])
   \<and> (\<exists>s'. returns (\<lambda>n. emit sample_program n ''x'' 42 remover_broker) (Normal, s')
        \<and> calls (drop (length (trace remover_broker)) (trace s')) = [(Fn 4, 42)])"
  using emission_walks_the_live_set
          [where s = relay_quiet_broker and k = "''x''" and a = 0 and P = layered_program
             and d = 42, THEN conjunct1]
        emission_walks_the_live_set
          [where s = resubscribing_broker and k = "''x''" and a = 0 and P = layered_program
             and d = 42 and ?e1.0 = "[]" and i = 5 and ?e2.0 = "[]" and ?n0.0 = 3
             and sL = "on ''x'' (Fn 2) (off ''x'' (Fn 5) resubscribing_broker)",
             THEN conjunct2, THEN conjunct1]
        emission_walks_the_live_set
          [where s = adder_broker and k = "''x''" and a = 0 and P = sample_program and d = 42
             and ?e1.0 = "[]" and i = 3 and ?e2.0 = "[]" and f = "Fn 1",
             THEN conjunct2, THEN conjunct2, THEN conjunct1]
        emission_walks_the_live_set
          [where s = remover_broker and k = "''x''" and a = 0 and P = sample_program and d = 42
             and ?e1.0 = "[]" and i = 4 and ?e2.0 = "[Some (Fn 1)]" and f = "Fn 1",
             THEN conjunct2, THEN conjunct2, THEN conjunct2]
  by (simp add: members_literal relay_quiet_broker_fields resubscribing_broker_fields
      mutating_broker_fields sample_program_def layered_program_def quiet_body_def
      off_def on_def Let_def set_add_def set_delete_def set_size_def eval_nat_numeral)

text \<open>
  The claim as it was stated fails, the loop walks the live \<open>Set\<close>: a listener that a
  listener adds for \<open>k\<close> during the emission is called by that emission, and a listener
  that is removed before its turn is not.
\<close>

theorem iteration_is_live:
  "members (heap adder_broker 0) = [Fn 3]
   \<and> emit sample_program 9 ''x'' 42 adder_broker
       = Some (Normal,
               logged [Called (Fn 3) 42, Called (Fn 1) 42, Logged ''ok'']
                 (on ''x'' (Fn 1) adder_broker))
   \<and> members (heap remover_broker 0) = [Fn 4, Fn 1]
   \<and> emit sample_program 9 ''x'' 42 remover_broker
       = Some (Normal, logged [Called (Fn 4) 42] (off ''x'' (Fn 1) remover_broker))"
  by (simp add: members_literal adder_broker_def remover_broker_def logged_def sample_defs
      eval_nat_numeral)

section \<open>Middleware order\<close>

text \<open>
  C7. Middlewares \<open>A\<close> then \<open>B\<close> registered with \<open>use\<close> on a broker without middleware,
  each logging, calling \<open>next\<close> and logging again, and one listener \<open>L\<close>: one \<open>emit\<close>
  runs what \<open>A\<close> does before \<open>next\<close>, then what \<open>B\<close> does before \<open>next\<close>, then \<open>L\<close>, then
  what \<open>B\<close> does after \<open>next\<close>, then what \<open>A\<close> does after it.
\<close>

theorem middleware_order:
  assumes "middlewares s = []"
    and "a \<noteq> b"
    and "mw_construct P a = []"
    and "mw_construct P b = []"
    and "mw_layer P a \<lparr>ev_name = k, ev_data = d\<rparr>
           = map Log preA @ CallNext \<lparr>ev_name = k, ev_data = d\<rparr> # map Log postA"
    and "mw_layer P b \<lparr>ev_name = k, ev_data = d\<rparr>
           = map Log preB @ CallNext \<lparr>ev_name = k, ev_data = d\<rparr> # map Log postB"
    and "listeners s k = Some adr"
    and "members (heap s adr) = [Fn l]"
    and "listener_code P l d = map Log body"
  shows "returns (\<lambda>n. emit P n k d (use (Mw b) (use (Mw a) s)))
           (Normal,
            logged (map Logged preA @ map Logged preB @ Called (Fn l) d # map Logged body
                      @ map Logged postB @ map Logged postA)
              (use (Mw b) (use (Mw a) s)))"
proof -
  let ?ev = "\<lparr>ev_name = k, ev_data = d\<rparr>"
  let ?s = "use (Mw b) (use (Mw a) s)"
  let ?sA = "logged (map Logged preA) ?s"
  let ?sB = "logged (map Logged preB) ?sA"
  let ?sL = "logged (Called (Fn l) d # map Logged body) ?sB"
  have mws: "middlewares ?s = [Mw a, Mw b]"
    and ls: "listeners ?s = listeners s" and hp: "heap ?s = heap s"
    using assms(1,2) by (simp_all add: use_def mw_add_def)
  have "returns (\<lambda>n. terminal P n adr 0 ?ev ?sB)
          (fst (walk P (onListenerError (errorPolicy ?sB)) ?ev (members (drop 0 (heap s adr)))),
           logged (snd (walk P (onListenerError (errorPolicy ?sB)) ?ev
                     (members (drop 0 (heap s adr))))) ?sB)"
    by (rule terminal_walk) (simp_all add: hp assms(8,9))
  then have "returns (\<lambda>n. terminal P n adr 0 ?ev ?sB) (Normal, ?sL)"
    by (simp add: assms(8,9))
  then have "returns (\<lambda>n. composed P n [] k ?ev ?sB) (Normal, ?sL)"
    by (rule composed_terminal_returns[rotated]) (simp add: ls assms(7))
  then have "returns (\<lambda>n. exec P n (Some ([], k)) (mw_layer P b ?ev) ?sA)
               (Normal, logged (map Logged postB) ?sL)"
    unfolding assms(6) by (rule exec_layer_returns)
  then have "returns (\<lambda>n. composed P n [Mw b] k ?ev ?sA) (Normal, logged (map Logged postB) ?sL)"
    by (rule composed_Mw_returns)
  then have "returns (\<lambda>n. exec P n (Some ([Mw b], k)) (mw_layer P a ?ev) ?s)
               (Normal, logged (map Logged postA) (logged (map Logged postB) ?sL))"
    unfolding assms(5) by (rule exec_layer_returns)
  then have "returns (\<lambda>n. composed P n [Mw a, Mw b] k ?ev ?s)
               (Normal, logged (map Logged postA) (logged (map Logged postB) ?sL))"
    by (rule composed_Mw_returns)
  then obtain N where N: "\<And>n. N \<le> n \<Longrightarrow> composed P n [Mw a, Mw b] k ?ev ?s
      = Some (Normal, logged (map Logged postA) (logged (map Logged postB) ?sL))"
    by (auto simp: returns_def)
  have "returns (\<lambda>n. emit P n k d ?s)
          (Normal, logged (map Logged postA) (logged (map Logged postB) ?sL))"
  proof (rule returnsI[of "max N 3 + 2"])
    fix n assume "max N 3 + 2 \<le> n"
    then obtain m where n: "n = Suc (Suc (Suc (Suc (Suc m))))" and m: "N \<le> Suc (Suc (Suc m))"
      by (cases n; cases "n - 1"; cases "n - 2"; cases "n - 3"; cases "n - 4") auto
    have rr: "reduceRight P (Suc (Suc (Suc m))) [Mw b, Mw a] [] k d ?s
                = Some (Inr [Mw a, Mw b], ?s)"
      by (simp add: assms(3,4))
    show "emit P n k d ?s
            = Some (Normal, logged (map Logged postA) (logged (map Logged postB) ?sL))"
      unfolding n using rr N[OF m] mws
      by (simp del: reduceRight.simps composed.simps)
  qed
  then show ?thesis by simp
qed

theorem middleware_order_witness:
  "returns (\<lambda>n. emit sample_program n ''x'' 42 (use (Mw 3) (use (Mw 0) listening_broker)))
     (Normal,
      logged [Logged ''A before'', Logged ''B before'', Called (Fn 1) 42, Logged ''ok'',
              Logged ''B after'', Logged ''A after'']
        (use (Mw 3) (use (Mw 0) listening_broker)))
   \<and> emit sample_program 14 ''x'' 42 (use (Mw 3) (use (Mw 0) listening_broker))
       = Some (Normal,
           logged [Logged ''A before'', Logged ''B before'', Called (Fn 1) 42, Logged ''ok'',
                   Logged ''B after'', Logged ''A after'']
             (use (Mw 3) (use (Mw 0) listening_broker)))"
  using middleware_order
          [where s = listening_broker and a = 0 and b = 3 and P = sample_program
             and k = "''x''" and d = 42 and preA = "[''A before'']" and postA = "[''A after'']"
             and preB = "[''B before'']" and postB = "[''B after'']" and adr = 0 and l = 1
             and body = "[''ok'']"]
  by (simp add: members_literal listening_broker_fields DEFAULT_ERROR_POLICY_def sample_program_def
      eval_nat_numeral use_def mw_add_def)

section \<open>Errors of a middleware layer\<close>

text \<open>
  C4. An error thrown when a middleware layer is invoked is not routed to the middleware
  slot: the guard of the fold only covers the call \<open>middleware(next)\<close>. With a custom
  \<open>onMiddlewareError\<close> handler and a middleware whose layer throws, the handler is never
  called, the emit guard logs the error and no listener is called; a middleware that
  throws while it is constructed is handled and skipped, and the listener is called.
\<close>

theorem layer_error_bypasses_middleware_slot:
  "onMiddlewareError (errorPolicy faulty_layer_broker) = Some (Handler 0)
   \<and> emit sample_program 9 ''x'' 42 faulty_layer_broker
       = Some (Normal,
               logged [ConsoleError EMIT ''x'' (Error ''layer failed'')] faulty_layer_broker)
   \<and> emit sample_program 9 ''x'' 42 faulty_construct_broker
       = Some (Normal,
               logged [Logged ''handled'', Called (Fn 1) 42, Logged ''ok'']
                 faulty_construct_broker)"
  by (simp add: faulty_layer_broker_def faulty_construct_broker_def mw_policy_def logged_def
      sample_defs eval_nat_numeral)

section \<open>One-shot listeners\<close>

text \<open>
  C6. A listener registered with \<open>once\<close> that throws is not unsubscribed: the wrapper
  calls \<open>off\<close> after the listener returns, so a second \<open>emit\<close> calls the listener again
  (twice in all). A listener that returns is unsubscribed by its first call, and the second
  \<open>emit\<close> calls nothing.
\<close>

theorem once_listener_that_throws_stays_registered:
  "emit sample_program 9 ''x'' 1 once_broker
     = Some (Normal,
             logged [Called (OnceWrapper 0 ''x'' (Fn 0)) 1, Called (Fn 0) 1,
                     ConsoleError LISTENER ''x'' (Error ''boom'')] once_broker)
   \<and> emit sample_program 9 ''x'' 2
        (logged [Called (OnceWrapper 0 ''x'' (Fn 0)) 1, Called (Fn 0) 1,
                 ConsoleError LISTENER ''x'' (Error ''boom'')] once_broker)
     = Some (Normal,
             logged [Called (OnceWrapper 0 ''x'' (Fn 0)) 1, Called (Fn 0) 1,
                     ConsoleError LISTENER ''x'' (Error ''boom''),
                     Called (OnceWrapper 0 ''x'' (Fn 0)) 2, Called (Fn 0) 2,
                     ConsoleError LISTENER ''x'' (Error ''boom'')] once_broker)
   \<and> emit sample_program 9 ''x'' 1 once_ok_broker
     = Some (Normal,
             logged [Called (OnceWrapper 0 ''x'' (Fn 1)) 1, Called (Fn 1) 1, Logged ''ok'']
               (off ''x'' (OnceWrapper 0 ''x'' (Fn 1)) once_ok_broker))
   \<and> emit sample_program 9 ''x'' 2
        (logged [Called (OnceWrapper 0 ''x'' (Fn 1)) 1, Called (Fn 1) 1, Logged ''ok'']
               (off ''x'' (OnceWrapper 0 ''x'' (Fn 1)) once_ok_broker))
     = Some (Normal,
             logged [Called (OnceWrapper 0 ''x'' (Fn 1)) 1, Called (Fn 1) 1, Logged ''ok'']
               (off ''x'' (OnceWrapper 0 ''x'' (Fn 1)) once_ok_broker))"
  by (simp add: once_ok_broker_def once_broker_def logged_def sample_defs eval_nat_numeral)

end
